theory Spec2Isabelle
  imports Main "HOL-Library.Multiset"
begin

section \<open>Python values, errors and log records\<close>

text \<open>
  A node reference is the path string the host scene API hands out.
\<close>

type_synonym node = string

text \<open>
  The values the module passes around: database documents, view items and queue
  entries are dictionaries with string keys. A dictionary is an association list in
  insertion order with each key at most once. \<open>'i\<close> is the opaque database id type
  (\<^verbatim>\<open>io.ObjectId\<close>).
\<close>

datatype 'i pyval =
    PNone
  | PBool bool
  | PInt int
  | PStr string
  | PObjectId 'i
  | PList "'i pyval list"
  | PDict "(string \<times> 'i pyval) list"

type_synonym 'i document = "(string \<times> 'i pyval) list"

text \<open>
  The exceptions the module can raise or let through. \<open>InvalidId\<close> is what
  \<^verbatim>\<open>io.ObjectId\<close> raises on a string that is not a database id, \<open>RecursionError\<close>
  what \<^verbatim>\<open>copy.deepcopy\<close> raises when the nesting is deeper than it can follow.
\<close>

datatype error =
    KeyError string
  | TypeError
  | IndexError
  | ValueError
  | AttributeError
  | AssertionError
  | InvalidId
  | RecursionError

text \<open>
  The three \<^verbatim>\<open>log.warning\<close> call sites of the module, one constructor each, with
  the arguments that are formatted into the message.
\<close>

datatype log_record =
    Warn_id_not_found string
  | Warn_nodes "node list"
  | Warn_removing string

text \<open>Python truth value testing, as \<^verbatim>\<open>if x\<close>, \<^verbatim>\<open>not x\<close> and \<^verbatim>\<open>assert x\<close> use it.\<close>

fun truthy :: "'i pyval \<Rightarrow> bool" where
  "truthy PNone = False"
| "truthy (PBool b) = b"
| "truthy (PInt n) = (n \<noteq> 0)"
| "truthy (PStr s) = (s \<noteq> [])"
| "truthy (PObjectId x) = True"
| "truthy (PList xs) = (xs \<noteq> [])"
| "truthy (PDict kvs) = (kvs \<noteq> [])"

text \<open>\<^verbatim>\<open>d[k]\<close> on a dictionary, and \<^verbatim>\<open>x[k]\<close> with a string key on any value.\<close>

definition dict_getitem :: "'i document \<Rightarrow> string \<Rightarrow> error + 'i pyval" where
  "dict_getitem d k = (case map_of d k of None \<Rightarrow> Inl (KeyError k) | Some v \<Rightarrow> Inr v)"

fun getitem :: "'i pyval \<Rightarrow> string \<Rightarrow> error + 'i pyval" where
  "getitem (PDict d) k = dict_getitem d k"
| "getitem v k = Inl TypeError"

text \<open>
  Python's \<^verbatim>\<open>value.split(sep)\<close> for a one-character separator. The result of
  \<^verbatim>\<open>str.split\<close> with a separator is never empty, so it is returned as the first
  piece together with the list of the remaining pieces; \<^verbatim>\<open>value.split(":")[0]\<close> is
  the first component.
\<close>

fun py_split :: "char \<Rightarrow> string \<Rightarrow> string \<times> string list" where
  "py_split sep [] = ([], [])"
| "py_split sep (c # cs) =
     (if c = sep then ([], fst (py_split sep cs) # snd (py_split sep cs))
      else (c # fst (py_split sep cs), snd (py_split sep cs)))"

section \<open>The store of mutable objects\<close>

text \<open>
  The two queue functions copy their items and then write into the copies in place,
  so for them dictionaries and lists are objects in a store: a value is an atom or a
  reference to an object, an object is a dictionary or a list of values, and the
  store is the list of all objects, an address being an index into it. A new object
  is put at the end of the store.
\<close>

type_synonym addr = nat

datatype 'i hval =
    HNone
  | HBool bool
  | HInt int
  | HStr string
  | HObjectId 'i
  | HRef addr

datatype 'i hobj =
    HDict "(string \<times> 'i hval) list"
  | HList "'i hval list"

type_synonym 'i heap = "'i hobj list"

section \<open>The collaborators\<close>

text \<open>
  A container as the host registry reports it (\<^verbatim>\<open>host.ls()\<close>): a record with at
  least \<^verbatim>\<open>objectName\<close> and \<^verbatim>\<open>loader\<close>.
\<close>

record container =
  objectName :: string
  loader :: string

text \<open>
  Everything the module reads from outside: the scene API (\<^verbatim>\<open>maya.cmds\<close>), the
  pipeline library (\<^verbatim>\<open>cblib\<close>), the host registry and the database (\<^verbatim>\<open>io\<close>).
  \<^item> \<open>get_id\<close>: \<^verbatim>\<open>cblib.get_id(node)\<close>, the identifier attribute or \<open>None\<close>;
  \<^item> \<open>ObjectId\<close>: \<^verbatim>\<open>io.ObjectId(s)\<close>, \<open>None\<close> when it raises on a malformed string;
  \<^item> \<open>collection\<close>: the documents of the project collection, in natural order;
  \<^item> \<open>value_le\<close>: the order the database sorts field values by (a missing field is \<open>None\<close>);
  \<^item> \<open>list_looks\<close>: \<^verbatim>\<open>cblib.list_looks(asset_id)\<close>, the look subsets of an asset;
  \<^item> \<open>ls_showNamespace\<close>: \<^verbatim>\<open>cmds.ls(node, showNamespace=True)\<close>;
  \<^item> \<open>str_of\<close>: \<^verbatim>\<open>str(v)\<close> of a value that is not a string;
  \<^item> \<open>host_ls\<close>: \<^verbatim>\<open>api.registered_host().ls()\<close>;
  \<^item> \<open>sets_query\<close>: \<^verbatim>\<open>cmds.sets(name, query=True)\<close>, which is \<open>None\<close> for an empty set;
  \<^item> \<open>ls_objectSets\<close>: \<^verbatim>\<open>cmds.ls(members, type="objectSet")\<close>;
  \<^item> \<open>str_ObjectId\<close>: \<^verbatim>\<open>str(oid)\<close> of a database id;
  \<^item> \<open>new_ObjectId\<close>: the id \<^verbatim>\<open>io.ObjectId(None)\<close> generates;
  \<^item> \<open>str_object\<close>: \<^verbatim>\<open>str(v)\<close> of a stored value that is neither a string nor a
    database id.
\<close>

record 'i env =
  get_id :: "node \<Rightarrow> string option"
  ObjectId :: "string \<Rightarrow> 'i option"
  collection :: "'i document list"
  value_le :: "'i pyval option \<Rightarrow> 'i pyval option \<Rightarrow> bool"
  list_looks :: "'i pyval \<Rightarrow> 'i document list"
  ls_showNamespace :: "node \<Rightarrow> string list"
  str_of :: "'i pyval \<Rightarrow> string"
  host_ls :: "container list"
  sets_query :: "string \<Rightarrow> node list option"
  ls_objectSets :: "node list option \<Rightarrow> node list"
  str_ObjectId :: "'i \<Rightarrow> string"
  new_ObjectId :: 'i
  str_object :: "'i heap \<Rightarrow> 'i hval \<Rightarrow> string"

subsection \<open>The database query\<close>

text \<open>
  \<^verbatim>\<open>io.find_one(query, projection=..., sort=[(field, -1)])\<close>: the documents that
  carry every field of the query with the queried value, sorted descending by the
  sort field when one is given, the first of them projected to \<^verbatim>\<open>_id\<close> and the
  projected fields; \<open>None\<close> when nothing matches.
\<close>

definition matches :: "'i document \<Rightarrow> 'i document \<Rightarrow> bool" where
  "matches query doc = list_all (\<lambda>(k, v). map_of doc k = Some v) query"

definition project :: "string list \<Rightarrow> 'i document \<Rightarrow> 'i document" where
  "project keep doc = filter (\<lambda>(k, v). k = ''_id'' \<or> k \<in> set keep) doc"

fun insert_desc :: "('a \<Rightarrow> 'a \<Rightarrow> bool) \<Rightarrow> 'a \<Rightarrow> 'a list \<Rightarrow> 'a list" where
  "insert_desc le x [] = [x]"
| "insert_desc le x (y # ys) = (if le y x then x # y # ys else y # insert_desc le x ys)"

definition sort_desc :: "('a \<Rightarrow> 'a \<Rightarrow> bool) \<Rightarrow> 'a list \<Rightarrow> 'a list" where
  "sort_desc le xs = foldr (insert_desc le) xs []"

definition find_one ::
  "'i env \<Rightarrow> 'i document \<Rightarrow> string list \<Rightarrow> string option \<Rightarrow> 'i document option" where
  "find_one env query projection sort_desc_field =
     (let found = filter (matches query) (collection env);
          ordered = (case sort_desc_field of
                       None \<Rightarrow> found
                     | Some f \<Rightarrow> sort_desc (\<lambda>a b. value_le env (map_of a f) (map_of b f)) found)
      in case ordered of [] \<Rightarrow> None | d # _ \<Rightarrow> Some (project projection d))"

section \<open>The module's functions\<close>

subsection \<open>Descendant expansion\<close>

text \<open>
  \<^verbatim>\<open>cmds.listRelatives(nodes, fullPath=True)\<close>: the immediate children of the given
  nodes, one after the other, and \<open>None\<close> when there are none. \<open>children\<close> is the
  scene's child relation, as the list of the immediate children of a node.
\<close>

definition listRelatives :: "(node \<Rightarrow> node list) \<Rightarrow> node list \<Rightarrow> node list option" where
  "listRelatives children nodes =
     (case concat (map children nodes) of [] \<Rightarrow> None | c # cs \<Rightarrow> Some (c # cs))"

fun truthy_nodes :: "node list option \<Rightarrow> bool" where
  "truthy_nodes None = False"
| "truthy_nodes (Some ns) = (ns \<noteq> [])"

text \<open>
  The \<^verbatim>\<open>while True\<close> loop of \<^verbatim>\<open>list_descendents\<close>. On a child relation with a cycle
  the loop does not end, which is the value \<open>None\<close>.
\<close>

partial_function (option) list_descendents_loop ::
  "(node \<Rightarrow> node list) \<Rightarrow> node list \<Rightarrow> node list \<Rightarrow> node list option" where
  "list_descendents_loop children nodes result =
     (let nodes' = listRelatives children nodes
      in if truthy_nodes nodes'
         then list_descendents_loop children (the nodes') (result @ the nodes')
         else Some result)"

definition list_descendents :: "(node \<Rightarrow> node list) \<Rightarrow> node list \<Rightarrow> node list option" where
  "list_descendents children nodes = list_descendents_loop children nodes []"

subsection \<open>Asset grouping\<close>

text \<open>
  \<^verbatim>\<open>node_id_hash[asset_id].append(node)\<close> on a \<^verbatim>\<open>defaultdict(list)\<close>: a new key
  goes to the end, an existing key keeps its place and its list grows at the end.
\<close>

fun dict_append :: "'k \<Rightarrow> 'v \<Rightarrow> ('k \<times> 'v list) list \<Rightarrow> ('k \<times> 'v list) list" where
  "dict_append k v [] = [(k, [v])]"
| "dict_append k v ((k', vs) # rest) =
     (if k = k' then (k', vs @ [v]) # rest else (k', vs) # dict_append k v rest)"

fun create_asset_id_hash_loop ::
  "'i env \<Rightarrow> node list \<Rightarrow> (string \<times> node list) list \<Rightarrow> (string \<times> node list) list" where
  "create_asset_id_hash_loop env [] node_id_hash = node_id_hash"
| "create_asset_id_hash_loop env (node # nodes) node_id_hash =
     (case get_id env node of
        None \<Rightarrow> create_asset_id_hash_loop env nodes node_id_hash
      | Some value \<Rightarrow>
          (let asset_id = fst (py_split CHR '':'' value)
           in create_asset_id_hash_loop env nodes (dict_append asset_id node node_id_hash)))"

definition create_asset_id_hash :: "'i env \<Rightarrow> node list \<Rightarrow> (string \<times> node list) list" where
  "create_asset_id_hash env nodes = create_asset_id_hash_loop env nodes []"

subsection \<open>Look resolution\<close>

text \<open>
  \<^verbatim>\<open>fetch_looks(asset)\<close>: \<^verbatim>\<open>asset["name"]\<close>, then \<^verbatim>\<open>asset["_id"]\<close> for the call of
  \<^verbatim>\<open>cblib.list_looks\<close>, then for each subset its \<^verbatim>\<open>_id\<close>, the query for the
  version and its \<^verbatim>\<open>name\<close>. A missing key raises \<open>KeyError\<close>.
\<close>

fun fetch_looks_loop ::
  "'i env \<Rightarrow> 'i pyval \<Rightarrow> 'i document list \<Rightarrow> 'i pyval list \<Rightarrow> error + 'i pyval list" where
  "fetch_looks_loop env asset_name [] publish_looks = Inr publish_looks"
| "fetch_looks_loop env asset_name (look_subset # subsets) publish_looks =
     (case dict_getitem look_subset ''_id'' of
        Inl e \<Rightarrow> Inl e
      | Inr subset_id \<Rightarrow>
          (let version = (case find_one env [(''type'', PStr ''version''), (''parent'', subset_id)]
                                 [''name'', ''parent''] (Some ''name'') of
                            None \<Rightarrow> PNone
                          | Some d \<Rightarrow> PDict d)
           in case dict_getitem look_subset ''name'' of
                Inl e \<Rightarrow> Inl e
              | Inr subset_name \<Rightarrow>
                  fetch_looks_loop env asset_name subsets
                    (publish_looks @ [PDict [(''asset_name'', asset_name),
                                             (''subset'', subset_name),
                                             (''version'', version)]])))"

definition fetch_looks :: "'i env \<Rightarrow> 'i document \<Rightarrow> error + 'i pyval list" where
  "fetch_looks env asset =
     (case dict_getitem asset ''name'' of
        Inl e \<Rightarrow> Inl e
      | Inr asset_name \<Rightarrow>
          (case dict_getitem asset ''_id'' of
             Inl e \<Rightarrow> Inl e
           | Inr asset_id \<Rightarrow> fetch_looks_loop env asset_name (list_looks env asset_id) []))"

subsection \<open>View-item construction\<close>

text \<open>
  \<^verbatim>\<open>_, ns = cmds.ls(node, showNamespace=True)\<close>: the unpacking raises
  \<open>ValueError\<close> unless the call returns exactly two strings.
\<close>

definition get_namespace_from_node :: "'i env \<Rightarrow> node \<Rightarrow> error + string" where
  "get_namespace_from_node env node =
     (case ls_showNamespace env node of [_, ns] \<Rightarrow> Inr ns | _ \<Rightarrow> Inl ValueError)"

text \<open>The \<^verbatim>\<open>%s\<close> conversion of the string formatting operator.\<close>

definition format_s :: "'i env \<Rightarrow> 'i pyval \<Rightarrow> string" where
  "format_s env v = (case v of PStr s \<Rightarrow> s | _ \<Rightarrow> str_of env v)"

text \<open>
  The loop of \<^verbatim>\<open>create_items_from_selection\<close> over the groups, with the view items
  built so far and the log. \<open>asset_id\<close> is the loop variable \<^verbatim>\<open>_id\<close>. An exception
  ends the loop; the log records emitted before it stay emitted.
\<close>

fun create_items_loop ::
  "'i env \<Rightarrow> (string \<times> node list) list \<Rightarrow> 'i pyval list \<Rightarrow> log_record list
    \<Rightarrow> (error + 'i pyval list) \<times> log_record list" where
  "create_items_loop env [] asset_view_items log = (Inr asset_view_items, log)"
| "create_items_loop env ((asset_id, nodes) # rest) asset_view_items log =
     (case ObjectId env asset_id of
        None \<Rightarrow> (Inl InvalidId, log)
      | Some oid \<Rightarrow>
          (case find_one env [(''_id'', PObjectId oid)] [''name''] None of
             None \<Rightarrow>
               create_items_loop env rest asset_view_items
                 (log @ [Warn_id_not_found asset_id, Warn_nodes nodes])
           | Some document \<Rightarrow>
               if document = [] then
                 create_items_loop env rest asset_view_items
                   (log @ [Warn_id_not_found asset_id, Warn_nodes nodes])
               else
               (case fetch_looks env document of
                  Inl e \<Rightarrow> (Inl e, log)
                | Inr looks \<Rightarrow>
                    (case nodes of
                       [] \<Rightarrow> (Inl IndexError, log)
                     | first_node # _ \<Rightarrow>
                         (case get_namespace_from_node env first_node of
                            Inl e \<Rightarrow> (Inl e, log)
                          | Inr namespace \<Rightarrow>
                              (case dict_getitem document ''name'' of
                                 Inl e \<Rightarrow> (Inl e, log)
                               | Inr name \<Rightarrow>
                                   create_items_loop env rest
                                     (asset_view_items @
                                       [PDict [(''asset'', PStr (namespace @ '' : '' @ format_s env name)),
                                               (''asset_name'', name),
                                               (''document'', PDict document),
                                               (''looks'', PList looks),
                                               (''_id'', PStr asset_id),
                                               (''nodes'', PList (map PStr nodes))]])
                                     log))))))"

definition create_items_from_selection ::
  "'i env \<Rightarrow> node list \<Rightarrow> (error + 'i pyval list) \<times> log_record list" where
  "create_items_from_selection env content =
     (let id_hashes = create_asset_id_hash env content
      in if id_hashes = [] then (Inr [], [])
         else create_items_loop env id_hashes [] [])"

subsection \<open>All assets of the scene\<close>

text \<open>
  \<^verbatim>\<open>create_items_from_selection(content)\<close> on what \<^verbatim>\<open>cmds.sets(..., query=True)\<close>
  returned: on \<open>None\<close> the \<^verbatim>\<open>for node in nodes\<close> of \<^verbatim>\<open>create_asset_id_hash\<close> raises
  \<open>TypeError\<close>.
\<close>

definition create_items_from_content ::
  "'i env \<Rightarrow> node list option \<Rightarrow> (error + 'i pyval list) \<times> log_record list" where
  "create_items_from_content env content =
     (case content of
        None \<Rightarrow> (Inl TypeError, [])
      | Some nodes \<Rightarrow> create_items_from_selection env nodes)"

fun get_all_assets_loop ::
  "'i env \<Rightarrow> container list \<Rightarrow> 'i pyval list \<Rightarrow> log_record list
    \<Rightarrow> (error + 'i pyval list) \<times> log_record list" where
  "get_all_assets_loop env [] items log = (Inr items, log)"
| "get_all_assets_loop env (c # containers) items log =
     (if loader c = ''LookLoader'' then get_all_assets_loop env containers items log
      else
        (let container_name = objectName c;
             content = sets_query env container_name
         in case create_items_from_content env content of
              (Inl e, emitted) \<Rightarrow> (Inl e, log @ emitted)
            | (Inr view_items, emitted) \<Rightarrow>
                if view_items = [] then get_all_assets_loop env containers items (log @ emitted)
                else get_all_assets_loop env containers (items @ view_items) (log @ emitted)))"

definition get_all_assets :: "'i env \<Rightarrow> (error + 'i pyval list) \<times> log_record list" where
  "get_all_assets env = get_all_assets_loop env (host_ls env) [] []"

subsection \<open>Assignment execution\<close>

text \<open>
  \<^verbatim>\<open>process_queued_item(entry)\<close>. The collaborator \<^verbatim>\<open>cblib.assign_look_by_version\<close>
  is a parameter (\<open>None\<close> when it returns, \<open>Some e\<close> when it raises); the second
  component of the result is the list of the calls made to it, with their arguments.
\<close>

definition process_queued_item ::
  "('i pyval \<Rightarrow> 'i pyval \<Rightarrow> error option) \<Rightarrow> 'i pyval
    \<Rightarrow> (error + unit) \<times> ('i pyval \<times> 'i pyval) list" where
  "process_queued_item assign_look_by_version entry =
     (case entry of
        PDict kvs \<Rightarrow>
          (let nodes = (case map_of kvs ''nodes'' of None \<Rightarrow> PList [] | Some v \<Rightarrow> v)
           in if \<not> truthy nodes then (Inl AssertionError, [])
              else
                (case dict_getitem kvs ''version'' of
                   Inl e \<Rightarrow> (Inl e, [])
                 | Inr version \<Rightarrow>
                     (case getitem version ''_id'' of
                        Inl e \<Rightarrow> (Inl e, [])
                      | Inr version_id \<Rightarrow>
                          ((case assign_look_by_version nodes version_id of
                              None \<Rightarrow> Inr ()
                            | Some e \<Rightarrow> Inl e),
                           [(nodes, version_id)]))))
      | _ \<Rightarrow> (Inl AttributeError, []))"

subsection \<open>Unused-look cleanup\<close>






section \<open>Queue (de)serialization on the store\<close>

subsection \<open>Reading and writing stored dictionaries\<close>

text \<open>
  \<^verbatim>\<open>x[k]\<close> with a string key: a dictionary is looked up, every other value raises
  \<open>TypeError\<close>.
\<close>

definition h_getitem :: "'i heap \<Rightarrow> 'i hval \<Rightarrow> string \<Rightarrow> error + 'i hval" where
  "h_getitem h v k =
     (case v of
        HRef a \<Rightarrow>
          (if a < length h then
             (case h ! a of
                HDict kvs \<Rightarrow> (case map_of kvs k of None \<Rightarrow> Inl (KeyError k) | Some x \<Rightarrow> Inr x)
              | HList xs \<Rightarrow> Inl TypeError)
           else Inl TypeError)
      | _ \<Rightarrow> Inl TypeError)"

text \<open>
  \<^verbatim>\<open>d[k] = x\<close> on an association list: an existing key keeps its place, a new key
  goes to the end.
\<close>

fun dict_set :: "string \<Rightarrow> 'v \<Rightarrow> (string \<times> 'v) list \<Rightarrow> (string \<times> 'v) list" where
  "dict_set k x [] = [(k, x)]"
| "dict_set k x ((k', y) # kvs) = (if k = k' then (k, x) # kvs else (k', y) # dict_set k x kvs)"

text \<open>
  \<^verbatim>\<open>x[k] = y\<close> with a string key writes into the stored dictionary in place; on
  every other value it raises \<open>TypeError\<close>.
\<close>

definition h_setitem :: "'i heap \<Rightarrow> 'i hval \<Rightarrow> string \<Rightarrow> 'i hval \<Rightarrow> error + 'i heap" where
  "h_setitem h v k x =
     (case v of
        HRef a \<Rightarrow>
          (if a < length h then
             (case h ! a of
                HDict kvs \<Rightarrow> Inr (h[a := HDict (dict_set k x kvs)])
              | HList xs \<Rightarrow> Inl TypeError)
           else Inl TypeError)
      | _ \<Rightarrow> Inl TypeError)"

subsection \<open>Deep copy\<close>

text \<open>
  \<^verbatim>\<open>copy.deepcopy\<close>. An atom is returned as it is. For a reference the memo is
  asked first; an object not yet copied gets a new, still empty object at the end
  of the store, which is entered into the memo before the members are copied and
  is filled when they are. \<open>depth\<close> bounds the nesting of the recursion.
\<close>

fun deepcopy ::
    "nat \<Rightarrow> 'i hval \<Rightarrow> (addr \<rightharpoonup> addr) \<Rightarrow> 'i heap \<Rightarrow> ('i hval \<times> (addr \<rightharpoonup> addr) \<times> 'i heap) option"
  and deepcopy_all ::
    "nat \<Rightarrow> 'i hval list \<Rightarrow> (addr \<rightharpoonup> addr) \<Rightarrow> 'i heap
      \<Rightarrow> ('i hval list \<times> (addr \<rightharpoonup> addr) \<times> 'i heap) option" where
  "deepcopy depth (HRef a) memo h =
     (case memo a of
        Some a' \<Rightarrow> Some (HRef a', memo, h)
      | None \<Rightarrow>
          (if a < length h then
             (case depth of
                0 \<Rightarrow> None
              | Suc depth' \<Rightarrow>
                  (let a' = length h in
                   case h ! a of
                     HDict kvs \<Rightarrow>
                       (case deepcopy_all depth' (map snd kvs) (memo(a \<mapsto> a')) (h @ [HDict []]) of
                          None \<Rightarrow> None
                        | Some (xs, memo', h') \<Rightarrow>
                            Some (HRef a', memo', h'[a' := HDict (zip (map fst kvs) xs)]))
                   | HList vs \<Rightarrow>
                       (case deepcopy_all depth' vs (memo(a \<mapsto> a')) (h @ [HList []]) of
                          None \<Rightarrow> None
                        | Some (xs, memo', h') \<Rightarrow> Some (HRef a', memo', h'[a' := HList xs]))))
           else None))"
| "deepcopy depth HNone memo h = Some (HNone, memo, h)"
| "deepcopy depth (HBool b) memo h = Some (HBool b, memo, h)"
| "deepcopy depth (HInt n) memo h = Some (HInt n, memo, h)"
| "deepcopy depth (HStr s) memo h = Some (HStr s, memo, h)"
| "deepcopy depth (HObjectId x) memo h = Some (HObjectId x, memo, h)"
| "deepcopy_all depth [] memo h = Some ([], memo, h)"
| "deepcopy_all depth (v # vs) memo h =
     (case deepcopy depth v memo h of
        None \<Rightarrow> None
      | Some (x, memo', h') \<Rightarrow>
          (case deepcopy_all depth vs memo' h' of
             None \<Rightarrow> None
           | Some (xs, memo'', h'') \<Rightarrow> Some (x # xs, memo'', h'')))"

subsection \<open>Conversions of database ids\<close>

text \<open>\<^verbatim>\<open>str(v)\<close> and \<^verbatim>\<open>io.ObjectId(v)\<close> on a stored value.\<close>

definition h_str :: "'i env \<Rightarrow> 'i heap \<Rightarrow> 'i hval \<Rightarrow> string" where
  "h_str env h v =
     (case v of HStr s \<Rightarrow> s | HObjectId x \<Rightarrow> str_ObjectId env x | _ \<Rightarrow> str_object env h v)"

definition h_ObjectId :: "'i env \<Rightarrow> 'i hval \<Rightarrow> error + 'i" where
  "h_ObjectId env v =
     (case v of
        HNone \<Rightarrow> Inr (new_ObjectId env)
      | HObjectId x \<Rightarrow> Inr x
      | HStr s \<Rightarrow> (case ObjectId env s of None \<Rightarrow> Inl InvalidId | Some x \<Rightarrow> Inr x)
      | _ \<Rightarrow> Inl TypeError)"

subsection \<open>The two queue functions\<close>

text \<open>
  The statement \<^verbatim>\<open>new_item["document"][k] = str(item["document"][k])\<close> of
  \<^verbatim>\<open>create_queue_out_data\<close>, for \<open>k\<close> one of \<^verbatim>\<open>_id\<close> and \<^verbatim>\<open>parent\<close>: the right-hand
  side is read from the item, then the target dictionary is read from the copy and
  written into in place.
\<close>

definition out_assign ::
  "'i env \<Rightarrow> 'i hval \<Rightarrow> 'i hval \<Rightarrow> string \<Rightarrow> 'i heap \<Rightarrow> error + 'i heap" where
  "out_assign env item new_item k h =
     (case h_getitem h item ''document'' of
        Inl e \<Rightarrow> Inl e
      | Inr document \<Rightarrow>
          (case h_getitem h document k of
             Inl e \<Rightarrow> Inl e
           | Inr v \<Rightarrow>
               (case h_getitem h new_item ''document'' of
                  Inl e \<Rightarrow> Inl e
                | Inr new_document \<Rightarrow> h_setitem h new_document k (HStr (h_str env h v)))))"

text \<open>
  The body of the loop of \<^verbatim>\<open>create_queue_out_data\<close> for one item, on the store
  \<open>h\<close>: the copy, then the two assignments. The result is the new item or the
  exception raised, and the store after it.
\<close>

definition out_item :: "'i env \<Rightarrow> 'i hval \<Rightarrow> 'i heap \<Rightarrow> (error + 'i hval) \<times> 'i heap" where
  "out_item env item h =
     (case deepcopy (length h) item Map.empty h of
        None \<Rightarrow> (Inl RecursionError, h)
      | Some (new_item, memo, h1) \<Rightarrow>
          (case out_assign env item new_item ''_id'' h1 of
             Inl e \<Rightarrow> (Inl e, h1)
           | Inr h2 \<Rightarrow>
               (case out_assign env item new_item ''parent'' h2 of
                  Inl e \<Rightarrow> (Inl e, h2)
                | Inr h3 \<Rightarrow> (Inr new_item, h3))))"

fun create_queue_out_data_loop ::
  "'i env \<Rightarrow> 'i hval list \<Rightarrow> 'i hval list \<Rightarrow> 'i heap \<Rightarrow> (error + 'i hval list) \<times> 'i heap" where
  "create_queue_out_data_loop env [] items h = (Inr items, h)"
| "create_queue_out_data_loop env (item # queue_items) items h =
     (case out_item env item h of
        (Inl e, h') \<Rightarrow> (Inl e, h')
      | (Inr new_item, h') \<Rightarrow> create_queue_out_data_loop env queue_items (items @ [new_item]) h')"

definition create_queue_out_data ::
  "'i env \<Rightarrow> 'i hval list \<Rightarrow> 'i heap \<Rightarrow> (error + 'i hval list) \<times> 'i heap" where
  "create_queue_out_data env queue_items h = create_queue_out_data_loop env queue_items [] h"

text \<open>
  The statement \<^verbatim>\<open>new_item["document"][k] = io.ObjectId(document[k])\<close> of
  \<^verbatim>\<open>create_queue_in_data\<close>, with \<open>document\<close> the item's document read before.
\<close>

definition in_assign ::
  "'i env \<Rightarrow> 'i hval \<Rightarrow> 'i hval \<Rightarrow> string \<Rightarrow> 'i heap \<Rightarrow> error + 'i heap" where
  "in_assign env document new_item k h =
     (case h_getitem h document k of
        Inl e \<Rightarrow> Inl e
      | Inr v \<Rightarrow>
          (case h_ObjectId env v of
             Inl e \<Rightarrow> Inl e
           | Inr oid \<Rightarrow>
               (case h_getitem h new_item ''document'' of
                  Inl e \<Rightarrow> Inl e
                | Inr new_document \<Rightarrow> h_setitem h new_document k (HObjectId oid))))"

definition in_item :: "'i env \<Rightarrow> 'i hval \<Rightarrow> 'i heap \<Rightarrow> (error + 'i hval) \<times> 'i heap" where
  "in_item env item h =
     (case deepcopy (length h) item Map.empty h of
        None \<Rightarrow> (Inl RecursionError, h)
      | Some (new_item, memo, h1) \<Rightarrow>
          (case h_getitem h1 item ''document'' of
             Inl e \<Rightarrow> (Inl e, h1)
           | Inr document \<Rightarrow>
               (case in_assign env document new_item ''_id'' h1 of
                  Inl e \<Rightarrow> (Inl e, h1)
                | Inr h2 \<Rightarrow>
                    (case in_assign env document new_item ''parent'' h2 of
                       Inl e \<Rightarrow> (Inl e, h2)
                     | Inr h3 \<Rightarrow> (Inr new_item, h3)))))"

fun create_queue_in_data_loop ::
  "'i env \<Rightarrow> 'i hval list \<Rightarrow> 'i hval list \<Rightarrow> 'i heap \<Rightarrow> (error + 'i hval list) \<times> 'i heap" where
  "create_queue_in_data_loop env [] items h = (Inr items, h)"
| "create_queue_in_data_loop env (item # queue_items) items h =
     (case in_item env item h of
        (Inl e, h') \<Rightarrow> (Inl e, h')
      | (Inr new_item, h') \<Rightarrow> create_queue_in_data_loop env queue_items (items @ [new_item]) h')"

definition create_queue_in_data ::
  "'i env \<Rightarrow> 'i hval list \<Rightarrow> 'i heap \<Rightarrow> (error + 'i hval list) \<times> 'i heap" where
  "create_queue_in_data env queue_items h = create_queue_in_data_loop env queue_items [] h"

subsection \<open>The queue file\<close>



section \<open>Notions of the specification\<close>

text \<open>
  The grouping key as the specification words it: everything before the first
  \<open>:\<close> of the identifier.
\<close>

definition before_first_colon :: "string \<Rightarrow> string" where
  "before_first_colon value = takeWhile (\<lambda>c. c \<noteq> CHR '':'') value"

text \<open>The nodes of the input, in input order, whose identifier resolves and has key \<open>k\<close>.\<close>

definition nodes_with_key :: "'i env \<Rightarrow> string \<Rightarrow> node list \<Rightarrow> node list" where
  "nodes_with_key env k nodes =
     filter (\<lambda>n. case get_id env n of None \<Rightarrow> False | Some value \<Rightarrow> before_first_colon value = k) nodes"

text \<open>The child relation of the scene as a set of (parent, child) pairs.\<close>

definition child_rel :: "(node \<Rightarrow> node list) \<Rightarrow> (node \<times> node) set" where
  "child_rel children = {(p, c). c \<in> set (children p)}"

text \<open>
  The frontier after \<open>k\<close> queries for the immediate children, starting from the
  given nodes.
\<close>

fun frontier :: "(node \<Rightarrow> node list) \<Rightarrow> node list \<Rightarrow> nat \<Rightarrow> node list" where
  "frontier children nodes 0 = nodes"
| "frontier children nodes (Suc k) = concat (map children (frontier children nodes k))"

text \<open>The version documents published under a subset.\<close>

definition versions_under :: "'i env \<Rightarrow> 'i pyval \<Rightarrow> 'i document list" where
  "versions_under env subset_id =
     filter (\<lambda>d. map_of d ''type'' = Some (PStr ''version'') \<and> map_of d ''parent'' = Some subset_id)
       (collection env)"

text \<open>
  An asset id has a matching document when it reads as a database id and a document
  of the collection carries that id.
\<close>

definition has_document :: "'i env \<Rightarrow> string \<Rightarrow> bool" where
  "has_document env asset_id =
     (case ObjectId env asset_id of
        None \<Rightarrow> False
      | Some oid \<Rightarrow> list_ex (\<lambda>d. map_of d ''_id'' = Some (PObjectId oid)) (collection env))"

text \<open>
  The outcomes of a sequence of calls put together: item lists and logs are
  concatenated in order, up to the first call that raised.
\<close>

fun collect ::
  "((error + 'a list) \<times> log_record list) list \<Rightarrow> (error + 'a list) \<times> log_record list" where
  "collect [] = (Inr [], [])"
| "collect ((Inl e, emitted) # rest) = (Inl e, emitted)"
| "collect ((Inr xs, emitted) # rest) =
     (case collect rest of
        (Inl e, emitted') \<Rightarrow> (Inl e, emitted @ emitted')
      | (Inr ys, emitted') \<Rightarrow> (Inr (xs @ ys), emitted @ emitted'))"





text \<open>
  A view item with a non-empty node list, and the condition \<^verbatim>\<open>process_queued_item\<close>
  asserts on an entry.
\<close>

definition has_nodes :: "'i pyval \<Rightarrow> bool" where
  "has_nodes item = (\<exists>n ns. getitem item ''nodes'' = Inr (PList (PStr n # map PStr ns)))"

text \<open>
  The addresses a value and an object refer to, and a store whose objects below
  \<open>n\<close> refer only to addresses below \<open>n\<close>.
\<close>

fun val_refs :: "'i hval \<Rightarrow> addr set" where
  "val_refs (HRef a) = {a}"
| "val_refs v = {}"

fun obj_vals :: "'i hobj \<Rightarrow> 'i hval list" where
  "obj_vals (HDict kvs) = map snd kvs"
| "obj_vals (HList vs) = vs"

definition refs_of :: "'i hobj \<Rightarrow> addr set" where
  "refs_of ob = (\<Union>v \<in> set (obj_vals ob). val_refs v)"

definition closed :: "nat \<Rightarrow> 'i heap \<Rightarrow> bool" where
  "closed n h = (\<forall>a < n. refs_of (h ! a) \<subseteq> {..<n})"

text \<open>A value and an object with their references renamed along a memo.\<close>

fun map_val :: "(addr \<rightharpoonup> addr) \<Rightarrow> 'i hval \<Rightarrow> 'i hval" where
  "map_val m (HRef a) = (case m a of None \<Rightarrow> HRef a | Some a' \<Rightarrow> HRef a')"
| "map_val m v = v"

fun map_obj :: "(addr \<rightharpoonup> addr) \<Rightarrow> 'i hobj \<Rightarrow> 'i hobj" where
  "map_obj m (HDict kvs) = HDict (map (\<lambda>(k, v). (k, map_val m v)) kvs)"
| "map_obj m (HList vs) = HList (map (map_val m) vs)"

text \<open>
  What a copying step from the store \<open>h\<close> with memo \<open>m\<close> to the store \<open>h'\<close> with
  memo \<open>m'\<close> has done: the objects of \<open>h\<close> are all still there, unchanged; the memo
  has grown; every object newly entered in it lies below \<open>n\<close>, its copy is a new
  object of \<open>h'\<close>, equal to the original with its references renamed along \<open>m'\<close>;
  and different originals have different copies.
\<close>

definition copied ::
  "nat \<Rightarrow> (addr \<rightharpoonup> addr) \<Rightarrow> 'i heap \<Rightarrow> (addr \<rightharpoonup> addr) \<Rightarrow> 'i heap \<Rightarrow> bool" where
  "copied n m h m' h' =
     (length h \<le> length h' \<and> take (length h) h' = h \<and> m \<subseteq>\<^sub>m m' \<and>
      (\<forall>a a'. m a = None \<longrightarrow> m' a = Some a' \<longrightarrow>
         a < n \<and> length h \<le> a' \<and> a' < length h' \<and>
         h' ! a' = map_obj m' (h ! a) \<and> refs_of (h ! a) \<subseteq> dom m') \<and>
      (\<forall>a b a'. m a = None \<longrightarrow> m b = None \<longrightarrow> m' a = Some a' \<longrightarrow> m' b = Some a' \<longrightarrow> a = b))"

text \<open>
  A field of a stored dictionary set; and the new item being a copy of the item
  with new values in the \<^verbatim>\<open>_id\<close> and \<^verbatim>\<open>parent\<close> fields of its document: there is a
  renaming of the objects of the item (below \<open>n\<close>) to new objects (from \<open>n\<close> on),
  different objects to different ones, under which the new item is the item; the
  copy of the item's document equals the document with its references renamed and
  the two fields set; the copy of every other object equals its original with its
  references renamed.
\<close>

fun obj_set :: "string \<Rightarrow> 'i hval \<Rightarrow> 'i hobj \<Rightarrow> 'i hobj" where
  "obj_set k x (HDict kvs) = HDict (dict_set k x kvs)"
| "obj_set k x (HList vs) = HList vs"

definition copy_except_document ::
  "nat \<Rightarrow> 'i heap \<Rightarrow> 'i hval \<Rightarrow> 'i heap \<Rightarrow> 'i hval \<Rightarrow> bool" where
  "copy_except_document n h item h' new_item =
     (\<exists>m. new_item = map_val m item \<and> val_refs item \<subseteq> dom m \<and>
        (\<forall>a t. m a = Some t \<longrightarrow>
           a < n \<and> n \<le> t \<and> t < length h' \<and> refs_of (h ! a) \<subseteq> dom m \<and>
           (if h_getitem h item ''document'' = Inr (HRef a)
            then \<exists>i p. h' ! t = obj_set ''parent'' p (obj_set ''_id'' i (map_obj m (h ! a)))
            else h' ! t = map_obj m (h ! a))) \<and>
        (\<forall>a b t. m a = Some t \<longrightarrow> m b = Some t \<longrightarrow> a = b))"


section \<open>An example scene and database\<close>

text \<open>
  A small scene: the asset \<open>hero\<close> with two tracked nodes, the asset \<open>tree\<close> with
  one, a node whose identifier points at no document of the database, a node whose
  identifier does not start with a database id, and a camera without an identifier. Database ids are written as their 24 hexadecimal digits.
\<close>

definition example_children :: "node \<Rightarrow> node list" where
  "example_children n =
     (if n = ''|hero'' then [''|hero|body'', ''|hero|head'']
      else if n = ''|hero|body'' then [''|hero|body|bodyShape'']
      else [])"

definition example_depth :: "node \<Rightarrow> nat" where
  "example_depth n =
     (if n = ''|hero'' then 0 else if n = ''|hero|body|bodyShape'' then 2 else 1)"

definition is_hex24 :: "string \<Rightarrow> bool" where
  "is_hex24 s = (length s = 24 \<and> list_all (\<lambda>c. c \<in> set ''0123456789abcdef'') s)"

definition hero_id :: string where "hero_id = ''5a0000000000000000000001''"
definition tree_id :: string where "tree_id = ''5a0000000000000000000002''"
definition ghost_id :: string where "ghost_id = ''5a00000000000000000000ff''"
definition look_id :: string where "look_id = ''5b0000000000000000000010''"

definition hero_asset :: "string document" where
  "hero_asset = [(''_id'', PObjectId hero_id), (''name'', PStr ''hero''), (''type'', PStr ''asset'')]"

definition hero_look :: "string document" where
  "hero_look = [(''_id'', PObjectId look_id), (''name'', PStr ''lookMain''),
                (''type'', PStr ''subset''), (''parent'', PObjectId hero_id)]"

definition example_collection :: "string document list" where
  "example_collection =
     [hero_asset,
      [(''_id'', PObjectId tree_id), (''name'', PStr ''tree''), (''type'', PStr ''asset'')],
      hero_look,
      [(''_id'', PObjectId ''5c0000000000000000000001''), (''name'', PInt 1),
       (''type'', PStr ''version''), (''parent'', PObjectId look_id)],
      [(''_id'', PObjectId ''5c0000000000000000000003''), (''name'', PInt 3),
       (''type'', PStr ''version''), (''parent'', PObjectId look_id)],
      [(''_id'', PObjectId ''5c0000000000000000000002''), (''name'', PInt 2),
       (''type'', PStr ''version''), (''parent'', PObjectId look_id)]]"

definition example_rank :: "string pyval option \<Rightarrow> int" where
  "example_rank v = (case v of Some (PInt n) \<Rightarrow> n | _ \<Rightarrow> 0)"

definition example_env :: "string env" where
  "example_env =
     \<lparr> get_id = map_of [(''|hero|body'', hero_id @ '':body''), (''|hero|head'', hero_id @ '':head''),
                        (''|tree|trunk'', tree_id @ '':trunk''), (''|ghost|sheet'', ghost_id @ '':sheet''),
                        (''|legacy|prop'', ''legacy:prop'')],
       ObjectId = (\<lambda>s. if is_hex24 s then Some s else None),
       collection = example_collection,
       value_le = (\<lambda>a b. example_rank a \<le> example_rank b),
       list_looks = (\<lambda>v. if v = PObjectId hero_id then [hero_look] else []),
       ls_showNamespace = (\<lambda>n. [n, '':'']),
       str_of = (\<lambda>v. ''''),
       host_ls = [\<lparr> objectName = ''hero_01_CON'', loader = ''ModelLoader'' \<rparr>,
                  \<lparr> objectName = ''heroLook_01_CON'', loader = ''LookLoader'' \<rparr>,
                  \<lparr> objectName = ''treeLook_01_CON'', loader = ''LookLoader'' \<rparr>],
       sets_query = map_of [(''hero_01_CON'', [''|hero|body'', ''|hero|head'']),
                            (''heroLook_01_CON'', [''heroSkin_SG'']),
                            (''treeLook_01_CON'', [''treeBark_SG'']),
                            (''heroSkin_SG'', [''|hero|body''])],
       ls_objectSets = (\<lambda>members. case members of
                          None \<Rightarrow> []
                        | Some ms \<Rightarrow> filter (\<lambda>m. m \<in> set [''heroSkin_SG'', ''treeBark_SG'']) ms),
       str_ObjectId = (\<lambda>oid. oid),
       new_ObjectId = ''5d0000000000000000000000'',
       str_object = (\<lambda>h v. []) \<rparr>"


text \<open>
  A store with one queue item: the item at address 0, its document at address 1,
  its list of nodes at address 2.
\<close>

definition example_store :: "string heap" where
  "example_store =
     [HDict [(''asset'', HStr ''hero''), (''document'', HRef 1), (''nodes'', HRef 2)],
      HDict [(''_id'', HObjectId look_id), (''name'', HStr ''heroLook''),
             (''parent'', HObjectId hero_id)],
      HList [HStr ''|hero|body'', HStr ''|hero|head'']]"


section \<open>Properties of the grouping\<close>

lemma py_split_first: "fst (py_split sep s) = takeWhile (\<lambda>c. c \<noteq> sep) s"
  by (induction s) auto

lemma dict_append_keys:
  "map fst (dict_append k v d) = (if k \<in> fst ` set d then map fst d else map fst d @ [k])"
  by (induction d) (auto split: if_splits)

lemma dict_append_distinct: "distinct (map fst d) \<Longrightarrow> distinct (map fst (dict_append k v d))"
  by (simp add: dict_append_keys)

lemma dict_append_map_of:
  "map_of (dict_append k v d) k' =
     (if k' = k then Some ((case map_of d k of None \<Rightarrow> [] | Some vs \<Rightarrow> vs) @ [v])
      else map_of d k')"
  by (induction d) auto

lemma dict_append_nonempty:
  "\<forall>(k, vs) \<in> set d. vs \<noteq> [] \<Longrightarrow> \<forall>(k, vs) \<in> set (dict_append k' v d). vs \<noteq> []"
  by (induction d) (auto split: if_splits)

lemma loop_distinct:
  "distinct (map fst d) \<Longrightarrow> distinct (map fst (create_asset_id_hash_loop env nodes d))"
  by (induction nodes arbitrary: d) (auto split: option.splits simp: dict_append_distinct Let_def)

lemma loop_nonempty:
  "\<forall>(k, vs) \<in> set d. vs \<noteq> [] \<Longrightarrow>
   \<forall>(k, vs) \<in> set (create_asset_id_hash_loop env nodes d). vs \<noteq> []"
proof (induction nodes arbitrary: d)
  case Nil
  then show ?case by simp
next
  case (Cons n nodes)
  show ?case
  proof (cases "get_id env n")
    case None
    with Cons show ?thesis by simp
  next
    case (Some idv)
    have "\<forall>(k, vs) \<in> set (dict_append (fst (py_split CHR '':'' idv)) n d). vs \<noteq> []"
      using Cons.prems by (rule dict_append_nonempty)
    from Cons.IH[OF this] Some show ?thesis by (simp add: Let_def)
  qed
qed

lemma loop_map_of:
  "map_of (create_asset_id_hash_loop env nodes d) k =
     (case (case map_of d k of None \<Rightarrow> [] | Some vs \<Rightarrow> vs) @ nodes_with_key env k nodes of
        [] \<Rightarrow> map_of d k
      | ns \<Rightarrow> Some ns)"
proof (induction nodes arbitrary: d)
  case Nil
  show ?case
    by (cases "map_of d k") (auto simp: nodes_with_key_def split: list.splits)
next
  case (Cons n nodes)
  show ?case
  proof (cases "get_id env n")
    case None
    then show ?thesis
      using Cons.IH[of d] by (simp add: nodes_with_key_def)
  next
    case (Some idv)
    then show ?thesis
      using Cons.IH[of "dict_append (fst (py_split CHR '':'' idv)) n d"]
      by (auto simp: nodes_with_key_def Let_def dict_append_map_of py_split_first
            before_first_colon_def split: option.splits list.splits)
  qed
qed

text \<open>
  C1. \<^verbatim>\<open>create_asset_id_hash\<close> has a key exactly for the strings that are the part
  before the first \<open>:\<close> of the identifier of some input node whose identifier is not
  null; under each key stand exactly the input nodes with that key, in input order;
  no key occurs twice.
\<close>

theorem create_asset_id_hash_groups:
  "distinct (map fst (create_asset_id_hash env nodes)) \<and>
   map_of (create_asset_id_hash env nodes) k =
     (case nodes_with_key env k nodes of [] \<Rightarrow> None | ns \<Rightarrow> Some ns)"
  unfolding create_asset_id_hash_def
  by (simp add: loop_distinct loop_map_of split: list.splits)

section \<open>Facts about the example scene\<close>

lemma example_env_fields:
  "get_id example_env = map_of [(''|hero|body'', hero_id @ '':body''), (''|hero|head'', hero_id @ '':head''),
                        (''|tree|trunk'', tree_id @ '':trunk''), (''|ghost|sheet'', ghost_id @ '':sheet''),
                        (''|legacy|prop'', ''legacy:prop'')]"
  "ObjectId example_env = (\<lambda>s. if is_hex24 s then Some s else None)"
  "collection example_env = example_collection"
  "value_le example_env = (\<lambda>a b. example_rank a \<le> example_rank b)"
  "list_looks example_env = (\<lambda>v. if v = PObjectId hero_id then [hero_look] else [])"
  "ls_showNamespace example_env = (\<lambda>n. [n, '':''])"
  "str_of example_env = (\<lambda>v. '''')"
  "str_ObjectId example_env = (\<lambda>oid. oid)"
  by (simp_all add: example_env_def)


lemma py_split_colon_append:
  "CHR '':'' \<notin> set s \<Longrightarrow> fst (py_split CHR '':'' (s @ CHR '':'' # t)) = s"
  by (induction s) auto

lemma example_ids_differ: "hero_id \<noteq> tree_id" "hero_id \<noteq> ghost_id" "tree_id \<noteq> ghost_id"
  by (simp_all add: hero_id_def tree_id_def ghost_id_def)

lemma example_ids_no_colon:
  "CHR '':'' \<notin> set hero_id" "CHR '':'' \<notin> set tree_id" "CHR '':'' \<notin> set ghost_id"
  by (simp_all add: hero_id_def tree_id_def ghost_id_def)

lemma example_grouping:
  "create_asset_id_hash example_env
      [''|hero|body'', ''|tree|trunk'', ''|camera'', ''|ghost|sheet'', ''|hero|head''] =
   [(hero_id, [''|hero|body'', ''|hero|head'']), (tree_id, [''|tree|trunk'']),
    (ghost_id, [''|ghost|sheet''])]"
  using example_ids_differ
  by (simp add: create_asset_id_hash_def example_env_fields(1) py_split_colon_append example_ids_no_colon)

lemma example_keys:
  "set (map fst (create_asset_id_hash example_env
      [''|hero|body'', ''|tree|trunk'', ''|camera'', ''|ghost|sheet'', ''|hero|head''])) =
   {hero_id, tree_id, ghost_id}"
  unfolding example_grouping by simp



lemma example_hex: "is_hex24 hero_id" "is_hex24 tree_id" "is_hex24 ghost_id" "\<not> is_hex24 ''legacy''"
  by (simp_all add: is_hex24_def hero_id_def tree_id_def ghost_id_def)

lemma example_ObjectId:
  "ObjectId example_env hero_id = Some hero_id" "ObjectId example_env tree_id = Some tree_id"
  "ObjectId example_env ghost_id = Some ghost_id" "ObjectId example_env ''legacy'' = None"
  by (simp_all add: example_env_fields example_hex)

lemma example_documents:
  "has_document example_env hero_id" "has_document example_env tree_id"
  "ObjectId example_env ghost_id \<noteq> None" "\<not> has_document example_env ghost_id"
  unfolding has_document_def example_ObjectId
  by (simp_all add: example_env_fields(3) example_collection_def
        hero_asset_def hero_look_def hero_id_def tree_id_def ghost_id_def look_id_def)

lemma example_named: "\<forall>d \<in> set (collection example_env). map_of d ''name'' \<noteq> None"
  by (simp add: example_env_fields example_collection_def hero_asset_def hero_look_def)

lemma example_looks_ok:
  "\<forall>v. \<forall>s \<in> set (list_looks example_env v). map_of s ''_id'' \<noteq> None \<and> map_of s ''name'' \<noteq> None"
  by (simp add: example_env_fields hero_look_def)

lemma example_namespaces: "\<forall>n. length (ls_showNamespace example_env n) = 2"
  by (simp add: example_env_fields)

section \<open>Properties of the descendant expansion\<close>

lemma frontier_shift:
  "frontier children nodes (Suc k) = frontier children (concat (map children nodes)) k"
  by (induction k) simp_all

lemma frontier_stays_empty:
  "frontier children nodes n = [] \<Longrightarrow> n \<le> k \<Longrightarrow> frontier children nodes k = []"
proof (induction k)
  case 0
  then show ?case by simp
next
  case (Suc k)
  show ?case
  proof (cases "n = Suc k")
    case True
    with Suc show ?thesis by simp
  next
    case False
    with Suc have "frontier children nodes k = []" by simp
    then show ?thesis by simp
  qed
qed

lemma set_frontier:
  "set (frontier children nodes k) = {d. \<exists>s \<in> set nodes. (s, d) \<in> child_rel children ^^ k}"
proof (induction k)
  case 0
  show ?case by auto
next
  case (Suc k)
  show ?case by (auto simp: Suc child_rel_def relcomp_unfold)
qed

text \<open>
  The next frontier is smaller than the current one in the multiset extension of
  the converse child relation, which is well-founded when the child relation is
  finite and acyclic.
\<close>

lemma wf_children_smaller:
  assumes "finite (child_rel children)" "acyclic (child_rel children)"
  shows "wf (inv_image (mult ((child_rel children)\<inverse>)) mset)"
proof -
  have "wf ((child_rel children)\<inverse>)"
    using assms by (simp add: finite_acyclic_wf_converse)
  then show ?thesis
    by (intro wf_inv_image wf_mult)
qed

lemma step_smaller:
  assumes "concat (map children nodes) \<noteq> []"
  shows "(concat (map children nodes), nodes) \<in> inv_image (mult ((child_rel children)\<inverse>)) mset"
proof -
  have ne: "mset nodes \<noteq> {#}" using assms by auto
  have "\<forall>k \<in> set_mset (mset (concat (map children nodes))). \<exists>j \<in> set_mset (mset nodes).
          (k, j) \<in> (child_rel children)\<inverse>"
    by (auto simp: child_rel_def)
  from one_step_implies_mult[OF ne this, of "{#}"] show ?thesis
    by simp
qed

lemma levels_shift:
  "map (\<lambda>k. frontier children nodes (Suc k)) [0..<Suc n] =
   concat (map children nodes) #
     map (\<lambda>k. frontier children (concat (map children nodes)) (Suc k)) [0..<n]"
proof -
  have "[0..<Suc n] = 0 # map Suc [0..<n]"
    by (simp only: map_Suc_upt upt_conv_Cons[of 0 "Suc n"] zero_less_Suc)
  then have "map (\<lambda>k. frontier children nodes (Suc k)) [0..<Suc n] =
     frontier children nodes (Suc 0) # map (\<lambda>k. frontier children nodes (Suc (Suc k))) [0..<n]"
    by (simp only: list.map map_map o_def)
  also have "(\<lambda>k. frontier children nodes (Suc (Suc k))) =
      (\<lambda>k. frontier children (concat (map children nodes)) (Suc k))"
    by (simp only: frontier_shift[of children nodes])
  finally show ?thesis by simp
qed

lemma loop_result:
  assumes "finite (child_rel children)" "acyclic (child_rel children)"
  shows "\<exists>n. frontier children nodes (Suc n) = [] \<and>
             (\<forall>k<n. frontier children nodes (Suc k) \<noteq> []) \<and>
             list_descendents_loop children nodes acc =
               Some (acc @ concat (map (\<lambda>k. frontier children nodes (Suc k)) [0..<n]))"
  using wf_children_smaller[OF assms]
proof (induction nodes arbitrary: acc rule: wf_induct_rule)
  case (less nodes)
  let ?next = "concat (map children nodes)"
  show ?case
  proof (cases "?next = []")
    case True
    then have lr: "listRelatives children nodes = None"
      by (simp only: listRelatives_def list.case)
    have "list_descendents_loop children nodes acc = Some acc"
      by (subst list_descendents_loop.simps) (simp add: lr)
    moreover have "frontier children nodes (Suc 0) = []"
      using True by simp
    ultimately show ?thesis by (intro exI[of _ 0]) simp
  next
    case False
    then obtain c cs where cs: "?next = c # cs" by (cases ?next) auto
    from less[OF step_smaller[OF False], of "acc @ ?next"]
    obtain n where n1: "frontier children ?next (Suc n) = []"
      and n2: "\<forall>k<n. frontier children ?next (Suc k) \<noteq> []"
      and n3: "list_descendents_loop children ?next (acc @ ?next) =
         Some ((acc @ ?next) @ concat (map (\<lambda>k. frontier children ?next (Suc k)) [0..<n]))"
      by blast
    have lr: "listRelatives children nodes = Some ?next"
      by (simp only: listRelatives_def cs list.case)
    have unfold: "list_descendents_loop children nodes acc =
        list_descendents_loop children ?next (acc @ ?next)"
      by (subst list_descendents_loop.simps) (simp add: lr cs)
    have a: "frontier children nodes (Suc (Suc n)) = []"
      using n1 by (simp only: frontier_shift[of children nodes])
    have b: "\<forall>k<Suc n. frontier children nodes (Suc k) \<noteq> []"
    proof (intro allI impI)
      fix k assume k: "k < Suc n"
      show "frontier children nodes (Suc k) \<noteq> []"
      proof (cases k)
        case 0
        then show ?thesis using False by simp
      next
        case (Suc j)
        with k n2 have "frontier children ?next (Suc j) \<noteq> []" by simp
        then show ?thesis
          unfolding Suc frontier_shift[of children nodes "Suc j"] .
      qed
    qed
    have c: "list_descendents_loop children nodes acc =
        Some (acc @ concat (map (\<lambda>k. frontier children nodes (Suc k)) [0..<Suc n]))"
      unfolding unfold n3 levels_shift by simp
    from a b c show ?thesis by blast
  qed
qed

lemma descendants_as_levels:
  assumes "frontier children nodes (Suc n) = []"
  shows "(\<Union>k \<in> {0..<n}. set (frontier children nodes (Suc k))) =
         {d. \<exists>s \<in> set nodes. (s, d) \<in> (child_rel children)\<^sup>+}"
proof (intro equalityI subsetI)
  fix d assume "d \<in> (\<Union>k \<in> {0..<n}. set (frontier children nodes (Suc k)))"
  then obtain k where "d \<in> set (frontier children nodes (Suc k))" by blast
  then obtain s where "s \<in> set nodes" "(s, d) \<in> child_rel children ^^ (Suc k)"
    unfolding set_frontier by blast
  then have "(s, d) \<in> (child_rel children)\<^sup>+"
    unfolding trancl_power by blast
  with \<open>s \<in> set nodes\<close> show "d \<in> {d. \<exists>s \<in> set nodes. (s, d) \<in> (child_rel children)\<^sup>+}"
    by blast
next
  fix d assume "d \<in> {d. \<exists>s \<in> set nodes. (s, d) \<in> (child_rel children)\<^sup>+}"
  then obtain s where s: "s \<in> set nodes" "(s, d) \<in> (child_rel children)\<^sup>+" by blast
  then obtain k where k: "0 < k" "(s, d) \<in> child_rel children ^^ k"
    unfolding trancl_power by blast
  then obtain j where j: "k = Suc j" by (cases k) auto
  from s(1) k(2) have in_k: "d \<in> set (frontier children nodes k)"
    unfolding set_frontier by blast
  have "j < n"
  proof (rule ccontr)
    assume "\<not> j < n"
    then have "Suc n \<le> k" using j by simp
    from frontier_stays_empty[OF assms this] in_k show False by simp
  qed
  with in_k j show "d \<in> (\<Union>k \<in> {0..<n}. set (frontier children nodes (Suc k)))"
    by auto
qed

text \<open>
  C7. On a finite acyclic child relation \<^verbatim>\<open>list_descendents\<close> returns, for every
  list of starting nodes. Its result is the concatenation of the frontiers of the
  successive queries for the immediate children, up to the first query that returns
  no children, and the nodes in it are exactly the descendants of the starting nodes.
\<close>

theorem list_descendents_total:
  assumes "finite (child_rel children)" and "acyclic (child_rel children)"
  shows "\<exists>n res. list_descendents children nodes = Some res \<and>
           frontier children nodes (Suc n) = [] \<and>
           (\<forall>k<n. frontier children nodes (Suc k) \<noteq> []) \<and>
           res = concat (map (\<lambda>k. frontier children nodes (Suc k)) [0..<n]) \<and>
           set res = {d. \<exists>s \<in> set nodes. (s, d) \<in> (child_rel children)\<^sup>+}"
proof -
  from loop_result[OF assms, of nodes "[]"] obtain n where
    n1: "frontier children nodes (Suc n) = []" and
    n2: "\<forall>k<n. frontier children nodes (Suc k) \<noteq> []" and
    n3: "list_descendents children nodes =
           Some (concat (map (\<lambda>k. frontier children nodes (Suc k)) [0..<n]))"
    unfolding list_descendents_def append_Nil by blast
  have "set (concat (map (\<lambda>k. frontier children nodes (Suc k)) [0..<n])) =
        (\<Union>k \<in> {0..<n}. set (frontier children nodes (Suc k)))"
    by (simp del: frontier.simps)
  then have "set (concat (map (\<lambda>k. frontier children nodes (Suc k)) [0..<n])) =
        {d. \<exists>s \<in> set nodes. (s, d) \<in> (child_rel children)\<^sup>+}"
    unfolding descendants_as_levels[OF n1] .
  with n1 n2 n3 show ?thesis by (intro exI conjI) (assumption | rule refl)+
qed

lemma example_child_rel:
  "child_rel example_children =
     {(''|hero'', ''|hero|body''), (''|hero'', ''|hero|head''), (''|hero|body'', ''|hero|body|bodyShape'')}"
  by (auto simp: child_rel_def example_children_def split: if_splits)

lemma example_finite: "finite (child_rel example_children)"
  by (simp add: example_child_rel)

lemma example_acyclic: "acyclic (child_rel example_children)"
proof -
  have "child_rel example_children \<subseteq> measure example_depth"
    by (auto simp: example_child_rel example_depth_def)
  then have "wf (child_rel example_children)"
    by (rule wf_subset[OF wf_measure])
  then show ?thesis by (rule wf_acyclic)
qed

theorem list_descendents_total_witness:
  "\<exists>n res. list_descendents example_children [''|hero''] = Some res \<and>
           frontier example_children [''|hero''] (Suc n) = [] \<and>
           (\<forall>k<n. frontier example_children [''|hero''] (Suc k) \<noteq> []) \<and>
           res = concat (map (\<lambda>k. frontier example_children [''|hero''] (Suc k)) [0..<n]) \<and>
           set res = {d. \<exists>s \<in> set [''|hero'']. (s, d) \<in> (child_rel example_children)\<^sup>+}"
  by (rule list_descendents_total[OF example_finite example_acyclic])

section \<open>Properties of the look resolution\<close>

lemma set_insert_desc: "set (insert_desc le x ys) = insert x (set ys)"
  by (induction ys) auto

lemma set_sort_desc: "set (sort_desc le xs) = set xs"
  unfolding sort_desc_def by (induction xs) (simp_all add: set_insert_desc)

lemma hd_insert_desc:
  "hd (insert_desc le x ys) = (if ys = [] \<or> le (hd ys) x then x else hd ys)"
  by (cases ys) simp_all

lemma insert_desc_not_Nil: "insert_desc le x ys \<noteq> []"
  by (cases ys) simp_all

lemma sort_desc_Nil_iff: "sort_desc le xs = [] \<longleftrightarrow> xs = []"
  unfolding sort_desc_def by (cases xs) (simp_all add: insert_desc_not_Nil)

lemma hd_sort_desc_greatest:
  assumes total: "\<forall>a b. le a b \<or> le b a"
    and trans: "\<forall>a b c. le a b \<longrightarrow> le b c \<longrightarrow> le a c"
  shows "\<forall>x \<in> set xs. le x (hd (sort_desc le xs))"
proof (induction xs)
  case Nil
  show ?case by simp
next
  case (Cons y ys)
  let ?t = "sort_desc le ys"
  have step: "sort_desc le (y # ys) = insert_desc le y ?t"
    by (simp add: sort_desc_def)
  have refl: "le y y" using total by blast
  show ?case
  proof (cases "?t = [] \<or> le (hd ?t) y")
    case True
    then have hd: "hd (sort_desc le (y # ys)) = y"
      by (simp add: step hd_insert_desc)
    have "le x y" if "x \<in> set ys" for x
    proof -
      from that have "ys \<noteq> []" by auto
      then have "?t \<noteq> []" by (simp add: sort_desc_Nil_iff)
      with True have "le (hd ?t) y" by simp
      moreover from Cons.IH that have "le x (hd ?t)" by simp
      ultimately show ?thesis using trans by blast
    qed
    with refl show ?thesis unfolding hd by auto
  next
    case False
    then have hd: "hd (sort_desc le (y # ys)) = hd ?t"
      by (simp add: step hd_insert_desc)
    from False total have "le y (hd ?t)" by blast
    with Cons.IH show ?thesis unfolding hd by auto
  qed
qed

lemma matches_version_query:
  "filter (matches [(''type'', PStr ''version''), (''parent'', sid)]) (collection env) =
   versions_under env sid"
  unfolding versions_under_def by (rule filter_cong) (simp_all add: matches_def)

lemma find_one_latest_version:
  assumes total: "\<forall>a b. value_le env a b \<or> value_le env b a"
    and trans: "\<forall>a b c. value_le env a b \<longrightarrow> value_le env b c \<longrightarrow> value_le env a c"
  shows "(versions_under env sid = [] \<and>
            find_one env [(''type'', PStr ''version''), (''parent'', sid)]
              [''name'', ''parent''] (Some ''name'') = None) \<or>
         (\<exists>d \<in> set (versions_under env sid).
            find_one env [(''type'', PStr ''version''), (''parent'', sid)]
              [''name'', ''parent''] (Some ''name'') = Some (project [''name'', ''parent''] d) \<and>
            (\<forall>d' \<in> set (versions_under env sid).
               value_le env (map_of d' ''name'') (map_of d ''name'')))"
proof -
  let ?le = "\<lambda>a b. value_le env (map_of a ''name'') (map_of b ''name'')"
  let ?vs = "versions_under env sid"
  let ?sorted = "sort_desc ?le ?vs"
  have fo: "find_one env [(''type'', PStr ''version''), (''parent'', sid)]
              [''name'', ''parent''] (Some ''name'') =
            (case ?sorted of [] \<Rightarrow> None | d # _ \<Rightarrow> Some (project [''name'', ''parent''] d))"
    unfolding find_one_def matches_version_query by (simp add: Let_def)
  show ?thesis
  proof (cases "?vs = []")
    case True
    then have "?sorted = []" by (simp add: sort_desc_Nil_iff)
    with True fo show ?thesis by simp
  next
    case False
    then have ne: "?sorted \<noteq> []" by (simp add: sort_desc_Nil_iff)
    then obtain d ds where dds: "?sorted = d # ds" by (cases ?sorted) auto
    then have "d \<in> set ?sorted" by simp
    then have d_in: "d \<in> set ?vs" by (simp only: set_sort_desc)
    have t1: "\<forall>a b. ?le a b \<or> ?le b a" using total by blast
    have t2: "\<forall>a b c. ?le a b \<longrightarrow> ?le b c \<longrightarrow> ?le a c" using trans by blast
    from hd_sort_desc_greatest[of ?le, OF t1 t2, of ?vs] dds
    have "\<forall>d' \<in> set ?vs. ?le d' d" by simp
    with d_in fo dds show ?thesis by auto
  qed
qed

lemma fetch_looks_loop_length:
  "fetch_looks_loop env an subsets acc = Inr looks \<Longrightarrow> length looks = length acc + length subsets"
  by (induction subsets arbitrary: acc) (auto split: sum.splits simp: Let_def)

lemma fetch_looks_loop_records:
  assumes "\<forall>s \<in> set subsets. map_of s ''_id'' \<noteq> None \<and> map_of s ''name'' \<noteq> None"
  shows "fetch_looks_loop env an subsets acc =
         Inr (acc @ map (\<lambda>s. PDict [(''asset_name'', an), (''subset'', the (map_of s ''name'')),
                (''version'',
                  (case find_one env [(''type'', PStr ''version''), (''parent'', the (map_of s ''_id''))]
                          [''name'', ''parent''] (Some ''name'') of
                     None \<Rightarrow> PNone | Some d \<Rightarrow> PDict d))]) subsets)"
  using assms
proof (induction subsets arbitrary: acc)
  case Nil
  show ?case by simp
next
  case (Cons s subsets)
  from Cons.prems obtain sid sname where s: "map_of s ''_id'' = Some sid" "map_of s ''name'' = Some sname"
    by auto
  from Cons.prems have rest: "\<forall>s \<in> set subsets. map_of s ''_id'' \<noteq> None \<and> map_of s ''name'' \<noteq> None"
    by simp
  show ?case
    by (simp add: dict_getitem_def s Let_def Cons.IH[OF rest])
qed

text \<open>
  C2. For an asset document (it has a \<^verbatim>\<open>name\<close> and an \<^verbatim>\<open>_id\<close>) whose look subsets
  have an \<^verbatim>\<open>_id\<close> and a \<^verbatim>\<open>name\<close>, and a database order that is total and
  transitive, \<^verbatim>\<open>fetch_looks\<close> returns one record per look subset, in order. The
  record carries the asset's name, the subset's name and the version: null when no
  version is published under the subset, otherwise the projection to \<^verbatim>\<open>_id\<close>,
  \<^verbatim>\<open>name\<close> and \<^verbatim>\<open>parent\<close> of a version under the subset whose name is greatest.
\<close>

theorem fetch_looks_one_record_per_subset:
  assumes name: "map_of asset ''name'' = Some asset_name"
    and aid: "map_of asset ''_id'' = Some asset_id"
    and subs: "\<forall>s \<in> set (list_looks env asset_id). map_of s ''_id'' \<noteq> None \<and> map_of s ''name'' \<noteq> None"
    and total: "\<forall>a b. value_le env a b \<or> value_le env b a"
    and trans: "\<forall>a b c. value_le env a b \<longrightarrow> value_le env b c \<longrightarrow> value_le env a c"
  shows "\<exists>looks. fetch_looks env asset = Inr looks \<and>
           length looks = length (list_looks env asset_id) \<and>
           (\<forall>i < length looks. \<exists>subset_id subset_name version.
               map_of (list_looks env asset_id ! i) ''_id'' = Some subset_id \<and>
               map_of (list_looks env asset_id ! i) ''name'' = Some subset_name \<and>
               looks ! i = PDict [(''asset_name'', asset_name), (''subset'', subset_name),
                                  (''version'', version)] \<and>
               (if versions_under env subset_id = [] then version = PNone
                else \<exists>d \<in> set (versions_under env subset_id).
                       version = PDict (project [''name'', ''parent''] d) \<and>
                       (\<forall>d' \<in> set (versions_under env subset_id).
                          value_le env (map_of d' ''name'') (map_of d ''name''))))"
proof -
  let ?subsets = "list_looks env asset_id"
  let ?rec = "\<lambda>s. PDict [(''asset_name'', asset_name), (''subset'', the (map_of s ''name'')),
                (''version'',
                  (case find_one env [(''type'', PStr ''version''), (''parent'', the (map_of s ''_id''))]
                          [''name'', ''parent''] (Some ''name'') of
                     None \<Rightarrow> PNone | Some d \<Rightarrow> PDict d))]"
  have res: "fetch_looks env asset = Inr (map ?rec ?subsets)"
    unfolding fetch_looks_def
    by (simp add: dict_getitem_def name aid fetch_looks_loop_records[OF subs])
  have each: "\<exists>subset_id subset_name version.
               map_of (?subsets ! i) ''_id'' = Some subset_id \<and>
               map_of (?subsets ! i) ''name'' = Some subset_name \<and>
               map ?rec ?subsets ! i = PDict [(''asset_name'', asset_name), (''subset'', subset_name),
                                  (''version'', version)] \<and>
               (if versions_under env subset_id = [] then version = PNone
                else \<exists>d \<in> set (versions_under env subset_id).
                       version = PDict (project [''name'', ''parent''] d) \<and>
                       (\<forall>d' \<in> set (versions_under env subset_id).
                          value_le env (map_of d' ''name'') (map_of d ''name'')))"
    if i: "i < length ?subsets" for i
  proof -
    from i have "?subsets ! i \<in> set ?subsets" by simp
    with subs obtain sid sname where s: "map_of (?subsets ! i) ''_id'' = Some sid"
      "map_of (?subsets ! i) ''name'' = Some sname" by blast
    from find_one_latest_version[OF total trans, of sid]
    have v: "(if versions_under env sid = [] then
               (case find_one env [(''type'', PStr ''version''), (''parent'', sid)]
                          [''name'', ''parent''] (Some ''name'') of
                     None \<Rightarrow> PNone | Some d \<Rightarrow> PDict d) = PNone
             else \<exists>d \<in> set (versions_under env sid).
                   (case find_one env [(''type'', PStr ''version''), (''parent'', sid)]
                          [''name'', ''parent''] (Some ''name'') of
                     None \<Rightarrow> PNone | Some d \<Rightarrow> PDict d) = PDict (project [''name'', ''parent''] d) \<and>
                   (\<forall>d' \<in> set (versions_under env sid).
                          value_le env (map_of d' ''name'') (map_of d ''name'')))"
      by (cases "versions_under env sid = []") auto
    show ?thesis
      apply (rule exI[of _ sid], rule exI[of _ sname])
      apply (rule exI[of _ "case find_one env [(''type'', PStr ''version''), (''parent'', sid)]
                          [''name'', ''parent''] (Some ''name'') of
                     None \<Rightarrow> PNone | Some d \<Rightarrow> PDict d"])
      using s v i by simp
  qed
  show ?thesis
    unfolding res using each by simp
qed

lemma example_le_total: "\<forall>a b. value_le example_env a b \<or> value_le example_env b a"
  by (auto simp: example_env_def)

lemma example_le_trans:
  "\<forall>a b c. value_le example_env a b \<longrightarrow> value_le example_env b c \<longrightarrow> value_le example_env a c"
  by (auto simp: example_env_def)

lemma example_subsets_ok:
  "\<forall>s \<in> set (list_looks example_env (PObjectId hero_id)). map_of s ''_id'' \<noteq> None \<and> map_of s ''name'' \<noteq> None"
  by (simp add: example_env_def hero_look_def)

theorem fetch_looks_witness:
  "\<exists>looks. fetch_looks example_env hero_asset = Inr looks \<and> length looks = 1 \<and>
     looks ! 0 = PDict [(''asset_name'', PStr ''hero''), (''subset'', PStr ''lookMain''),
        (''version'', PDict [(''_id'', PObjectId ''5c0000000000000000000003''), (''name'', PInt 3),
                            (''parent'', PObjectId look_id)])]"
proof -
  have n: "map_of hero_asset ''name'' = Some (PStr ''hero'')"
    and i: "map_of hero_asset ''_id'' = Some (PObjectId hero_id)"
    by (simp_all add: hero_asset_def)
  from fetch_looks_one_record_per_subset[OF n i example_subsets_ok example_le_total example_le_trans]
  obtain looks where l: "fetch_looks example_env hero_asset = Inr looks"
    "length looks = length (list_looks example_env (PObjectId hero_id))" by blast
  have "fetch_looks example_env hero_asset = Inr [PDict [(''asset_name'', PStr ''hero''), (''subset'', PStr ''lookMain''),
        (''version'', PDict [(''_id'', PObjectId ''5c0000000000000000000003''), (''name'', PInt 3),
                            (''parent'', PObjectId look_id)])]]"
    by code_simp
  with l show ?thesis by (simp add: example_env_def)
qed

section \<open>Properties of the assignment execution\<close>

text \<open>
  C5. A queue entry whose node list is absent or empty fails with the assertion
  error, and no call of the look-assignment collaborator is made.
\<close>

theorem process_queued_item_requires_nodes:
  assumes "map_of kvs ''nodes'' = None \<or> map_of kvs ''nodes'' = Some (PList [])"
  shows "process_queued_item assign_look_by_version (PDict kvs) = (Inl AssertionError, [])"
  using assms by (auto simp: process_queued_item_def)

theorem process_queued_item_requires_nodes_witness:
  "process_queued_item (\<lambda>nodes version_id. None)
     (PDict [(''version'', PDict [(''_id'', PObjectId (1::nat))])]) = (Inl AssertionError, []) \<and>
   process_queued_item (\<lambda>nodes version_id. None)
     (PDict [(''nodes'', PList []), (''version'', PDict [(''_id'', PObjectId (1::nat))])]) =
     (Inl AssertionError, [])"
proof -
  have a: "map_of [(''version'', PDict [(''_id'', PObjectId (1::nat))])] ''nodes'' = None \<or>
           map_of [(''version'', PDict [(''_id'', PObjectId (1::nat))])] ''nodes'' = Some (PList [])"
    by simp
  have b: "map_of [(''nodes'', PList []), (''version'', PDict [(''_id'', PObjectId (1::nat))])] ''nodes'' = None \<or>
           map_of [(''nodes'', PList []), (''version'', PDict [(''_id'', PObjectId (1::nat))])] ''nodes'' = Some (PList [])"
    by simp
  from process_queued_item_requires_nodes[OF a] process_queued_item_requires_nodes[OF b]
  show ?thesis by blast
qed

section \<open>Properties of the unused-look cleanup\<close>







section \<open>Properties of the container scan\<close>

lemma get_all_assets_loop_collect:
  "get_all_assets_loop env containers items log =
     (case collect (map (\<lambda>c. create_items_from_content env (sets_query env (objectName c)))
                     (filter (\<lambda>c. loader c \<noteq> ''LookLoader'') containers)) of
        (Inl e, emitted) \<Rightarrow> (Inl e, log @ emitted)
      | (Inr view_items, emitted) \<Rightarrow> (Inr (items @ view_items), log @ emitted))"
proof (induction containers arbitrary: items log)
  case Nil
  show ?case by simp
next
  case (Cons c containers)
  show ?case
  proof (cases "loader c = ''LookLoader''")
    case True
    then show ?thesis by (simp add: Cons.IH)
  next
    case False
    obtain r emitted where call: "create_items_from_content env (sets_query env (objectName c)) = (r, emitted)"
      by (cases "create_items_from_content env (sets_query env (objectName c))")
    show ?thesis
    proof (cases r)
      case (Inl e)
      with False call show ?thesis by simp
    next
      case (Inr view_items)
      with False call show ?thesis
        by (simp add: Cons.IH split: prod.splits sum.splits)
    qed
  qed
qed

text \<open>
  When every call returns, putting the outcomes together is concatenating the
  view items and the warnings.
\<close>

lemma collect_returned:
  "collect (map (\<lambda>(xs, emitted). (Inr xs, emitted)) rs) =
     (Inr (concat (map fst rs)), concat (map snd rs))"
  by (induction rs) auto

lemma get_all_assets_returned:
  assumes "map (\<lambda>c. create_items_from_content env (sets_query env (objectName c)))
             (filter (\<lambda>c. loader c \<noteq> ''LookLoader'') (host_ls env)) =
           map (\<lambda>(view_items, emitted). (Inr view_items, emitted)) rs"
  shows "get_all_assets env = (Inr (concat (map fst rs)), concat (map snd rs))"
  unfolding get_all_assets_def get_all_assets_loop_collect assms collect_returned
  by simp



section \<open>Properties of the view-item construction\<close>

lemma fetch_looks_loop_error:
  "fetch_looks_loop env an subsets acc = Inl e \<Longrightarrow> \<exists>k. e = KeyError k"
  by (induction subsets arbitrary: acc)
     (auto simp: dict_getitem_def Let_def split: sum.splits option.splits)

lemma fetch_looks_error: "fetch_looks env d = Inl e \<Longrightarrow> \<exists>k. e = KeyError k"
  unfolding fetch_looks_def
  by (auto simp: dict_getitem_def split: sum.splits option.splits dest: fetch_looks_loop_error)

lemma get_namespace_error: "get_namespace_from_node env n = Inl e \<Longrightarrow> e = ValueError"
  unfolding get_namespace_from_node_def by (auto split: list.splits)

lemma create_items_loop_no_IndexError:
  assumes "\<forall>(k, ns) \<in> set hashes. ns \<noteq> []"
  shows "fst (create_items_loop env hashes items log) \<noteq> Inl IndexError"
  using assms
proof (induction hashes arbitrary: items log)
  case Nil
  show ?case by simp
next
  case (Cons g hashes)
  obtain k ns where g: "g = (k, ns)" by (cases g)
  from Cons.prems g obtain n ns' where ns: "ns = n # ns'" by (cases ns) auto
  from Cons.prems have rest: "\<forall>(k, ns) \<in> set hashes. ns \<noteq> []" by simp
  note IH = Cons.IH[OF rest]
  show ?case
    unfolding g ns
    by (auto simp: IH dict_getitem_def split: option.splits sum.splits
          dest: fetch_looks_error get_namespace_error)
qed

lemma create_items_loop_has_nodes:
  assumes "\<forall>(k, ns) \<in> set hashes. ns \<noteq> []"
    and "create_items_loop env hashes items log = (Inr res, emitted)"
    and "\<forall>i \<in> set items. has_nodes i"
  shows "\<forall>i \<in> set res. has_nodes i"
  using assms
proof (induction hashes arbitrary: items log)
  case Nil
  then show ?case by simp
next
  case (Cons g hashes)
  obtain k ns where g: "g = (k, ns)" by (cases g)
  from Cons.prems(1) g obtain n ns' where ns: "ns = n # ns'" by (cases ns) auto
  from Cons.prems(1) have rest: "\<forall>(k, ns) \<in> set hashes. ns \<noteq> []" by simp
  have new: "has_nodes (PDict [(''asset'', a), (''asset_name'', b), (''document'', c),
       (''looks'', d), (''_id'', e), (''nodes'', PList (map PStr (n # ns')))])" for a b c d e :: "'a pyval"
    unfolding has_nodes_def by (auto simp: dict_getitem_def)
  from Cons.prems(2) show ?case
    unfolding g ns
    using Cons.IH[OF rest _ Cons.prems(3)]
      Cons.IH[OF rest, of "items @ [PDict [(''asset'', a), (''asset_name'', b), (''document'', c),
       (''looks'', d), (''_id'', e), (''nodes'', PList (map PStr (n # ns')))]]" for a b c d e]
      Cons.prems(3) new
    by (auto split: option.splits sum.splits if_splits)
qed

lemma map_of_project:
  "map_of (project keep d) k = (if k = ''_id'' \<or> k \<in> set keep then map_of d k else None)"
  unfolding project_def by (induction d) auto

lemma find_one_by_id:
  "find_one env [(''_id'', PObjectId oid)] [''name''] None =
     (case filter (\<lambda>d. map_of d ''_id'' = Some (PObjectId oid)) (collection env) of
        [] \<Rightarrow> None
      | d # _ \<Rightarrow> Some (project [''name''] d))"
proof -
  have "filter (matches [(''_id'', PObjectId oid)]) (collection env) =
        filter (\<lambda>d. map_of d ''_id'' = Some (PObjectId oid)) (collection env)"
    by (rule filter_cong) (simp_all add: matches_def)
  then show ?thesis by (simp add: find_one_def)
qed

lemma has_document_iff:
  assumes "ObjectId env k = Some oid"
  shows "has_document env k \<longleftrightarrow> find_one env [(''_id'', PObjectId oid)] [''name''] None \<noteq> None"
proof -
  let ?found = "filter (\<lambda>d. map_of d ''_id'' = Some (PObjectId oid)) (collection env)"
  have "has_document env k \<longleftrightarrow> ?found \<noteq> []"
    unfolding has_document_def by (simp add: assms list_ex_iff filter_empty_conv)
  also have "\<dots> \<longleftrightarrow> find_one env [(''_id'', PObjectId oid)] [''name''] None \<noteq> None"
    unfolding find_one_by_id by (cases ?found) simp_all
  finally show ?thesis .
qed

lemma find_one_by_id_Some:
  assumes "find_one env [(''_id'', PObjectId oid)] [''name''] None = Some document"
  shows "\<exists>d \<in> set (collection env). document = project [''name''] d \<and>
           map_of d ''_id'' = Some (PObjectId oid)"
proof -
  let ?found = "filter (\<lambda>d. map_of d ''_id'' = Some (PObjectId oid)) (collection env)"
  from assms obtain d ds where f: "?found = d # ds" and doc: "document = project [''name''] d"
    unfolding find_one_by_id by (auto split: list.splits)
  from f have "d \<in> set ?found" by simp
  then have "d \<in> set (collection env)" "map_of d ''_id'' = Some (PObjectId oid)" by simp_all
  with doc show ?thesis by blast
qed

lemma fetch_looks_succeeds:
  assumes "map_of asset ''name'' \<noteq> None" and "map_of asset ''_id'' \<noteq> None"
    and "\<forall>v. \<forall>s \<in> set (list_looks env v). map_of s ''_id'' \<noteq> None \<and> map_of s ''name'' \<noteq> None"
  shows "\<exists>looks. fetch_looks env asset = Inr looks"
proof -
  from assms(1,2) obtain an ai where a: "map_of asset ''name'' = Some an" "map_of asset ''_id'' = Some ai"
    by auto
  from assms(3) have "\<forall>s \<in> set (list_looks env ai). map_of s ''_id'' \<noteq> None \<and> map_of s ''name'' \<noteq> None"
    by blast
  from fetch_looks_loop_records[OF this] show ?thesis
    unfolding fetch_looks_def by (simp add: dict_getitem_def a)
qed

lemma create_items_loop_wellformed:
  assumes groups: "\<forall>(k, ns) \<in> set hashes. ns \<noteq> [] \<and> ObjectId env k \<noteq> None"
    and named: "\<forall>d \<in> set (collection env). map_of d ''name'' \<noteq> None"
    and looks: "\<forall>v. \<forall>s \<in> set (list_looks env v). map_of s ''_id'' \<noteq> None \<and> map_of s ''name'' \<noteq> None"
    and nss: "\<forall>n. length (ls_showNamespace env n) = 2"
  shows "\<exists>new. create_items_loop env hashes items log =
            (Inr (items @ new),
             log @ concat (map (\<lambda>(k, ns). [Warn_id_not_found k, Warn_nodes ns])
                            (filter (\<lambda>(k, ns). \<not> has_document env k) hashes))) \<and>
          map (\<lambda>i. getitem i ''_id'') new =
            map (\<lambda>(k, ns). Inr (PStr k)) (filter (\<lambda>(k, ns). has_document env k) hashes)"
  using groups
proof (induction hashes arbitrary: items log)
  case Nil
  show ?case by simp
next
  case (Cons g hashes)
  obtain k ns where g: "g = (k, ns)" by (cases g)
  from Cons.prems g obtain n ns' where ns: "ns = n # ns'" by (cases ns) auto
  from Cons.prems g obtain oid where oid: "ObjectId env k = Some oid" by auto
  from Cons.prems have rest: "\<forall>(k, ns) \<in> set hashes. ns \<noteq> [] \<and> ObjectId env k \<noteq> None" by simp
  note IH = Cons.IH[OF rest]
  show ?case
  proof (cases "find_one env [(''_id'', PObjectId oid)] [''name''] None")
    case None
    then have nd: "\<not> has_document env k" by (simp add: has_document_iff[OF oid])
    from IH[of items "log @ [Warn_id_not_found k, Warn_nodes ns]"]
    show ?thesis unfolding g by (simp add: oid None nd)
  next
    case (Some document)
    then have hd: "has_document env k" by (simp add: has_document_iff[OF oid])
    from find_one_by_id_Some[OF Some] obtain d where d: "d \<in> set (collection env)"
      "document = project [''name''] d" "map_of d ''_id'' = Some (PObjectId oid)" by blast
    from named d(1) obtain nm where nm: "map_of d ''name'' = Some nm" by auto
    have doc_id: "map_of document ''_id'' = Some (PObjectId oid)"
      and doc_name: "map_of document ''name'' = Some nm"
      unfolding d(2) by (simp_all add: map_of_project d(3) nm)
    from doc_id have ne: "document \<noteq> []" by auto
    from fetch_looks_succeeds[OF _ _ looks, of document] doc_id doc_name
    obtain lks where lks: "fetch_looks env document = Inr lks" by auto
    from nss obtain x y where xy: "ls_showNamespace env n = [x, y]"
      by (metis length_0_conv length_Suc_conv numeral_2_eq_2)
    have nsp: "get_namespace_from_node env n = Inr y"
      by (simp add: get_namespace_from_node_def xy)
    let ?item = "PDict [(''asset'', PStr (y @ '' : '' @ format_s env nm)), (''asset_name'', nm),
                        (''document'', PDict document), (''looks'', PList lks),
                        (''_id'', PStr k), (''nodes'', PList (map PStr ns))]"
    have step: "create_items_loop env (g # hashes) items log =
                create_items_loop env hashes (items @ [?item]) log"
      unfolding g ns by (simp add: oid Some ne lks nsp dict_getitem_def doc_name)
    from IH[of "items @ [?item]" log] obtain new where
      new: "create_items_loop env hashes (items @ [?item]) log =
            (Inr ((items @ [?item]) @ new),
             log @ concat (map (\<lambda>(k, ns). [Warn_id_not_found k, Warn_nodes ns])
                            (filter (\<lambda>(k, ns). \<not> has_document env k) hashes)))"
      "map (\<lambda>i. getitem i ''_id'') new =
            map (\<lambda>(k, ns). Inr (PStr k)) (filter (\<lambda>(k, ns). has_document env k) hashes)"
      by blast
    show ?thesis
      apply (rule exI[of _ "?item # new"])
      unfolding step new(1) using new(2) by (simp add: g hd dict_getitem_def)
  qed
qed

lemma filter_key_distinct:
  "distinct (map fst xs) \<Longrightarrow> map_of xs k = Some v \<Longrightarrow> filter (\<lambda>(k', v'). k' = k) xs = [(k, v)]"
proof (induction xs)
  case Nil
  then show ?case by simp
next
  case (Cons x xs)
  obtain k' v' where x: "x = (k', v')" by (cases x)
  show ?case
  proof (cases "k' = k")
    case True
    with Cons.prems x have "k \<notin> fst ` set xs" "v' = v" by auto
    then have "filter (\<lambda>(k', v'). k' = k) xs = []"
      by (force simp: filter_empty_conv)
    with True x \<open>v' = v\<close> show ?thesis by simp
  next
    case False
    with Cons x show ?thesis by simp
  qed
qed

lemma getitem_error: "getitem v k = Inl e \<Longrightarrow> e = TypeError \<or> e = KeyError k"
  by (cases v) (auto simp: dict_getitem_def split: option.splits)

lemma has_nodes_passes_assert:
  assumes "has_nodes item"
  shows "process_queued_item assign_look_by_version item \<noteq> (Inl AssertionError, [])"
proof -
  from assms obtain n ns where n: "getitem item ''nodes'' = Inr (PList (PStr n # map PStr ns))"
    unfolding has_nodes_def by blast
  then obtain kvs where item: "item = PDict kvs" by (cases item) simp_all
  with n have "map_of kvs ''nodes'' = Some (PList (PStr n # map PStr ns))"
    by (simp add: dict_getitem_def split: option.splits)
  then show ?thesis
    unfolding item process_queued_item_def
    by (cases "map_of kvs ''version''"; cases "getitem (the (map_of kvs ''version'')) ''_id''")
       (auto simp: dict_getitem_def Let_def dest: getitem_error)
qed

text \<open>
  C10. \<^verbatim>\<open>create_items_from_selection\<close> never fails with \<open>IndexError\<close>: the first
  node of a group always exists. Every view item it returns has a non-empty node
  list, and the assertion of \<^verbatim>\<open>process_queued_item\<close> does not fail on it.
\<close>

theorem view_items_have_nodes:
  "(case create_items_from_selection env content of
      (Inl e, emitted) \<Rightarrow> e \<noteq> IndexError
    | (Inr items, emitted) \<Rightarrow>
        list_all (\<lambda>item. has_nodes item \<and>
                    process_queued_item assign_look_by_version item \<noteq> (Inl AssertionError, []))
          items)"
proof -
  let ?h = "create_asset_id_hash env content"
  have groups: "\<forall>(k, ns) \<in> set ?h. ns \<noteq> []"
    unfolding create_asset_id_hash_def by (rule loop_nonempty) simp
  show ?thesis
  proof (cases "?h = []")
    case True
    then show ?thesis by (simp add: create_items_from_selection_def)
  next
    case False
    then have eq: "create_items_from_selection env content = create_items_loop env ?h [] []"
      by (simp add: create_items_from_selection_def)
    obtain r emitted where r: "create_items_loop env ?h [] [] = (r, emitted)"
      by (cases "create_items_loop env ?h [] []")
    show ?thesis
    proof (cases r)
      case (Inl e)
      with create_items_loop_no_IndexError[OF groups, of env "[]" "[]"] r eq
      show ?thesis by simp
    next
      case (Inr items)
      with r have "create_items_loop env ?h [] [] = (Inr items, emitted)" by simp
      from create_items_loop_has_nodes[OF groups this] have "\<forall>i \<in> set items. has_nodes i"
        by simp
      with has_nodes_passes_assert show ?thesis
        unfolding eq r Inr by (auto simp: list_all_iff)
    qed
  qed
qed

text \<open>
  C4. In a database whose documents carry a name and whose look subsets carry an
  \<^verbatim>\<open>_id\<close> and a name, and a scene whose namespace query returns its two values:
  when the nodes span exactly three asset ids, two with a matching document and
  one that reads as a database id but has none, \<^verbatim>\<open>create_items_from_selection\<close>
  returns exactly two view items, those of the two known ids, and logs two warning
  records for the unknown id: one naming the id, one listing its nodes.
\<close>

theorem create_items_two_known_one_unknown:
  assumes keys: "set (map fst (create_asset_id_hash env content)) = {a, b, u}"
    and diff: "a \<noteq> b" "a \<noteq> u" "b \<noteq> u"
    and known: "has_document env a" "has_document env b"
    and unknown: "ObjectId env u \<noteq> None" "\<not> has_document env u"
    and named: "\<forall>d \<in> set (collection env). map_of d ''name'' \<noteq> None"
    and looks: "\<forall>v. \<forall>s \<in> set (list_looks env v). map_of s ''_id'' \<noteq> None \<and> map_of s ''name'' \<noteq> None"
    and nss: "\<forall>n. length (ls_showNamespace env n) = 2"
  shows "\<exists>items. create_items_from_selection env content =
            (Inr items, [Warn_id_not_found u, Warn_nodes (nodes_with_key env u content)]) \<and>
          length items = 2 \<and>
          set (map (\<lambda>i. getitem i ''_id'') items) = {Inr (PStr a), Inr (PStr b)}"
proof -
  let ?h = "create_asset_id_hash env content"
  let ?known = "\<lambda>(k, ns). has_document env k"
  let ?unknown = "\<lambda>(k, ns). \<not> has_document env k"
  have dist: "distinct (map fst ?h)"
    unfolding create_asset_id_hash_def by (rule loop_distinct) simp
  have nonempty: "\<forall>(k, ns) \<in> set ?h. ns \<noteq> []"
    unfolding create_asset_id_hash_def by (rule loop_nonempty) simp
  have key_cases: "k = a \<or> k = b \<or> k = u" if "(k, ns) \<in> set ?h" for k ns
  proof -
    from that have "k \<in> set (map fst ?h)" by force
    with keys show ?thesis by simp
  qed
  have parse: "ObjectId env k \<noteq> None" if "(k, ns) \<in> set ?h" for k ns
    using key_cases[OF that] known unknown(1) by (auto simp: has_document_def split: option.splits)
  have groups: "\<forall>(k, ns) \<in> set ?h. ns \<noteq> [] \<and> ObjectId env k \<noteq> None"
    using nonempty parse by auto
  have ne: "?h \<noteq> []" using keys by auto
  then have eq: "create_items_from_selection env content = create_items_loop env ?h [] []"
    by (simp add: create_items_from_selection_def)
  from create_items_loop_wellformed[OF groups named looks nss, of "[]" "[]"]
  obtain items where
    res: "create_items_loop env ?h [] [] =
            (Inr items, concat (map (\<lambda>(k, ns). [Warn_id_not_found k, Warn_nodes ns]) (filter ?unknown ?h)))"
    and ids: "map (\<lambda>i. getitem i ''_id'') items = map (\<lambda>(k, ns). Inr (PStr k)) (filter ?known ?h)"
    by auto
  have "u \<in> set (map fst ?h)" using keys by simp
  then have "map_of ?h u \<noteq> None" by (simp add: map_of_eq_None_iff)
  then have mu: "map_of ?h u = Some (nodes_with_key env u content)"
    unfolding create_asset_id_hash_def loop_map_of by (simp split: list.splits)
  have "filter ?unknown ?h = filter (\<lambda>(k', v'). k' = u) ?h"
    by (rule filter_cong) (use key_cases known unknown(2) in auto)
  also have "\<dots> = [(u, nodes_with_key env u content)]"
    by (rule filter_key_distinct[OF dist mu])
  finally have unk: "filter ?unknown ?h = [(u, nodes_with_key env u content)]" .
  have "length ?h = card (set (map fst ?h))"
    using distinct_card[OF dist] by simp
  also have "\<dots> = 3" unfolding keys using diff by simp
  finally have len: "length ?h = 3" .
  have "length (filter ?known ?h) + length (filter (\<lambda>x. \<not> ?known x) ?h) = length ?h"
    by (rule sum_length_filter_compl)
  moreover have "filter (\<lambda>x. \<not> ?known x) ?h = filter ?unknown ?h"
    by (rule filter_cong) auto
  ultimately have len2: "length (filter ?known ?h) = 2"
    using len unk by simp
  have "set (map (\<lambda>(k, ns). Inr (PStr k)) (filter ?known ?h)) =
        (\<lambda>k. Inr (PStr k)) ` {k \<in> set (map fst ?h). has_document env k}"
    by force
  also have "{k \<in> set (map fst ?h). has_document env k} = {a, b}"
    unfolding keys using known unknown(2) by auto
  finally have idset: "set (map (\<lambda>i. getitem i ''_id'') items) = {Inr (PStr a), Inr (PStr b)}"
    unfolding ids by simp
  from ids len2 have "length items = 2"
    by (metis length_map)
  with idset res unk eq show ?thesis by simp
qed

theorem create_items_two_known_one_unknown_witness:
  "\<exists>items. create_items_from_selection example_env
       [''|hero|body'', ''|tree|trunk'', ''|camera'', ''|ghost|sheet'', ''|hero|head''] =
      (Inr items, [Warn_id_not_found ghost_id,
                   Warn_nodes (nodes_with_key example_env ghost_id
                     [''|hero|body'', ''|tree|trunk'', ''|camera'', ''|ghost|sheet'', ''|hero|head''])]) \<and>
     length items = 2 \<and>
     set (map (\<lambda>i. getitem i ''_id'') items) = {Inr (PStr hero_id), Inr (PStr tree_id)}"
  by (rule create_items_two_known_one_unknown[OF example_keys example_ids_differ example_documents
        example_named example_looks_ok example_namespaces])


lemma example_grouping_three:
  "create_asset_id_hash example_env [''|hero|body'', ''|tree|trunk'', ''|ghost|sheet''] =
   [(hero_id, [''|hero|body'']), (tree_id, [''|tree|trunk'']), (ghost_id, [''|ghost|sheet''])]"
  using example_ids_differ
  by (simp add: create_asset_id_hash_def example_env_fields(1) py_split_colon_append example_ids_no_colon)

lemma example_grouping_legacy:
  "create_asset_id_hash example_env [''|legacy|prop'', ''|hero|body'', ''|tree|trunk''] =
   [(''legacy'', [''|legacy|prop'']), (hero_id, [''|hero|body'']), (tree_id, [''|tree|trunk''])]"
proof -
  have "fst (py_split CHR '':'' ''legacy:prop'') = ''legacy''" by simp
  moreover have "''legacy'' \<noteq> hero_id" "''legacy'' \<noteq> tree_id"
    by (simp_all add: hero_id_def tree_id_def)
  ultimately show ?thesis
    using example_ids_differ
    by (simp add: create_asset_id_hash_def example_env_fields(1) py_split_colon_append
          example_ids_no_colon del: py_split.simps)
qed

theorem create_items_one_warning_counterexample:
  "snd (create_items_from_selection example_env [''|hero|body'', ''|tree|trunk'', ''|ghost|sheet'']) =
     [Warn_id_not_found ghost_id, Warn_nodes [''|ghost|sheet'']] \<and>
   create_items_from_selection example_env [''|legacy|prop'', ''|hero|body'', ''|tree|trunk''] =
     (Inl InvalidId, [])"
proof
  let ?h = "[(hero_id, [''|hero|body'']), (tree_id, [''|tree|trunk'']), (ghost_id, [''|ghost|sheet''])]"
  have groups: "\<forall>(k, ns) \<in> set ?h. ns \<noteq> [] \<and> ObjectId example_env k \<noteq> None"
    by (simp add: example_ObjectId)
  from create_items_loop_wellformed[OF groups example_named example_looks_ok example_namespaces,
      of "[]" "[]"]
  have "snd (create_items_loop example_env ?h [] []) =
        [Warn_id_not_found ghost_id, Warn_nodes [''|ghost|sheet'']]"
    by (auto simp: example_documents)
  then show "snd (create_items_from_selection example_env
                [''|hero|body'', ''|tree|trunk'', ''|ghost|sheet'']) =
             [Warn_id_not_found ghost_id, Warn_nodes [''|ghost|sheet'']]"
    by (simp add: create_items_from_selection_def example_grouping_three)
next
  show "create_items_from_selection example_env [''|legacy|prop'', ''|hero|body'', ''|tree|trunk''] =
     (Inl InvalidId, [])"
    by (simp add: create_items_from_selection_def example_grouping_legacy example_ObjectId)
qed

theorem view_items_have_nodes_witness:
  "list_all (\<lambda>item. has_nodes item \<and>
        process_queued_item (\<lambda>nodes version_id. None) item \<noteq> (Inl AssertionError, []))
     (case fst (create_items_from_selection example_env
                  [''|hero|body'', ''|tree|trunk'', ''|camera'', ''|ghost|sheet'', ''|hero|head'']) of
        Inr items \<Rightarrow> items | Inl e \<Rightarrow> []) \<and>
   length (case fst (create_items_from_selection example_env
                  [''|hero|body'', ''|tree|trunk'', ''|camera'', ''|ghost|sheet'', ''|hero|head'']) of
        Inr items \<Rightarrow> items | Inl e \<Rightarrow> []) = 2"
proof -
  let ?content = "[''|hero|body'', ''|tree|trunk'', ''|camera'', ''|ghost|sheet'', ''|hero|head'']"
  let ?h = "[(hero_id, [''|hero|body'', ''|hero|head'']), (tree_id, [''|tree|trunk'']),
             (ghost_id, [''|ghost|sheet''])]"
  have groups: "\<forall>(k, ns) \<in> set ?h. ns \<noteq> [] \<and> ObjectId example_env k \<noteq> None"
    by (simp add: example_ObjectId)
  from create_items_loop_wellformed[OF groups example_named example_looks_ok example_namespaces,
      of "[]" "[]"]
  obtain items emitted where r: "create_items_loop example_env ?h [] [] = (Inr items, emitted)"
    and ids: "map (\<lambda>i. getitem i ''_id'') items =
              map (\<lambda>(k, ns). Inr (PStr k)) (filter (\<lambda>(k, ns). has_document example_env k) ?h)"
    by auto
  from ids have "length (map (\<lambda>i. getitem i ''_id'') items) = 2"
    by (simp add: example_documents)
  then have len: "length items = 2" by simp
  have eq: "create_items_from_selection example_env ?content = (Inr items, emitted)"
    unfolding create_items_from_selection_def example_grouping Let_def r by simp
  from view_items_have_nodes[where env = example_env and content = ?content
      and assign_look_by_version = "\<lambda>nodes version_id. None"]
  show ?thesis unfolding eq using len by simp
qed


text \<open>
  An asset id among the groups that does not read as a database id ends the call
  with an exception, whatever the other groups are: no items are returned.
\<close>

lemma create_items_loop_malformed:
  "(k, nodes) \<in> set id_hashes \<Longrightarrow> ObjectId env k = None \<Longrightarrow>
   \<exists>e. fst (create_items_loop env id_hashes items log) = Inl e"
proof (induction id_hashes arbitrary: items log)
  case Nil
  then show ?case by simp
next
  case (Cons g id_hashes)
  obtain k' ns where g: "g = (k', ns)" by (cases g)
  show ?case
  proof (cases "k' = k")
    case True
    with g Cons.prems(2) show ?thesis by simp
  next
    case False
    with Cons.prems(1) g have "(k, nodes) \<in> set id_hashes" by simp
    note ih = Cons.IH[OF this Cons.prems(2)]
    show ?thesis
      unfolding g create_items_loop.simps
      using ih by (auto split: option.splits sum.splits list.splits)
  qed
qed

lemma malformed_id_raises:
  assumes "n \<in> set content" "get_id env n = Some v"
    and "ObjectId env (before_first_colon v) = None"
  shows "\<exists>e. fst (create_items_from_selection env content) = Inl e"
proof -
  let ?k = "before_first_colon v"
  from assms(1,2) have "n \<in> set (nodes_with_key env ?k content)"
    by (simp add: nodes_with_key_def)
  then obtain m ms where ne: "nodes_with_key env ?k content = m # ms"
    by (cases "nodes_with_key env ?k content") auto
  have "map_of (create_asset_id_hash env content) ?k = Some (m # ms)"
    unfolding create_asset_id_hash_def by (simp add: loop_map_of ne)
  then have mem: "(?k, m # ms) \<in> set (create_asset_id_hash env content)"
    by (rule map_of_SomeD)
  then have "create_asset_id_hash env content \<noteq> []" by auto
  with create_items_loop_malformed[OF mem assms(3), of "[]" "[]"] show ?thesis
    by (simp add: create_items_from_selection_def Let_def)
qed
section \<open>Properties of the deep copy\<close>

lemma copiedI:
  assumes "length h \<le> length h'" "take (length h) h' = h" "m \<subseteq>\<^sub>m m'"
    and "\<And>a a'. m a = None \<Longrightarrow> m' a = Some a' \<Longrightarrow>
           a < n \<and> length h \<le> a' \<and> a' < length h' \<and>
           h' ! a' = map_obj m' (h ! a) \<and> refs_of (h ! a) \<subseteq> dom m'"
    and "\<And>a b a'. m a = None \<Longrightarrow> m b = None \<Longrightarrow> m' a = Some a' \<Longrightarrow> m' b = Some a' \<Longrightarrow> a = b"
  shows "copied n m h m' h'"
  unfolding copied_def using assms by blast

lemma copied_length: "copied n m h m' h' \<Longrightarrow> length h \<le> length h'"
  and copied_take: "copied n m h m' h' \<Longrightarrow> take (length h) h' = h"
  and copied_memo: "copied n m h m' h' \<Longrightarrow> m \<subseteq>\<^sub>m m'"
  by (simp_all add: copied_def)

lemma copied_new:
  assumes "copied n m h m' h'" "m a = None" "m' a = Some a'"
  shows "a < n" "length h \<le> a'" "a' < length h'" "h' ! a' = map_obj m' (h ! a)"
    "refs_of (h ! a) \<subseteq> dom m'"
  using assms unfolding copied_def by blast+

lemma copied_inj:
  assumes "copied n m h m' h'" "m a = None" "m b = None" "m' a = Some a'" "m' b = Some a'"
  shows "a = b"
  using assms unfolding copied_def by blast

lemma copied_nth: "copied n m h m' h' \<Longrightarrow> a < length h \<Longrightarrow> h' ! a = h ! a"
proof -
  assume c: "copied n m h m' h'" and a: "a < length h"
  from a have "take (length h) h' ! a = h' ! a" by (rule nth_take)
  with copied_take[OF c] show ?thesis by simp
qed

lemma map_le_Some: "m \<subseteq>\<^sub>m m' \<Longrightarrow> m a = Some b \<Longrightarrow> m' a = Some b"
  by (auto simp: map_le_def dom_def)

lemma map_le_dom_sub: "m \<subseteq>\<^sub>m m' \<Longrightarrow> A \<subseteq> dom m \<Longrightarrow> A \<subseteq> dom m'"
  by (auto simp: map_le_def dom_def)

lemma copied_refl: "copied n m h m h"
  by (rule copiedI) simp_all

lemma map_val_agree:
  "val_refs v \<subseteq> dom m \<Longrightarrow> m \<subseteq>\<^sub>m m' \<Longrightarrow> map_val m' v = map_val m v"
proof (cases v)
  case (HRef a)
  assume "val_refs v \<subseteq> dom m" "m \<subseteq>\<^sub>m m'"
  with HRef obtain a' where "m a = Some a'" by auto
  with \<open>m \<subseteq>\<^sub>m m'\<close> have "m' a = Some a'" by (rule map_le_Some)
  with \<open>m a = Some a'\<close> HRef show ?thesis by simp
qed simp_all

lemma map_obj_agree:
  assumes "refs_of ob \<subseteq> dom m" "m \<subseteq>\<^sub>m m'"
  shows "map_obj m' ob = map_obj m ob"
proof -
  have "map_val m' v = map_val m v" if "v \<in> set (obj_vals ob)" for v
    using assms that by (intro map_val_agree) (auto simp: refs_of_def)
  then show ?thesis by (cases ob) force+
qed

lemma copied_trans:
  assumes c1: "copied n m h m1 h1" and c2: "copied n m1 h1 m2 h2" and n: "n \<le> length h"
  shows "copied n m h m2 h2"
proof (rule copiedI)
  note l1 = copied_length[OF c1] and l2 = copied_length[OF c2]
  note s1 = copied_memo[OF c1] and s2 = copied_memo[OF c2]
  show "length h \<le> length h2" using l1 l2 by simp
  show "m \<subseteq>\<^sub>m m2" using s1 s2 by (rule map_le_trans)
  show "take (length h) h2 = h"
  proof -
    have "take (length h) h2 = take (length h) (take (length h1) h2)"
      using l1 by (simp add: min_def)
    then show ?thesis using copied_take[OF c1] copied_take[OF c2] by simp
  qed
  show "a < n \<and> length h \<le> a' \<and> a' < length h2 \<and>
         h2 ! a' = map_obj m2 (h ! a) \<and> refs_of (h ! a) \<subseteq> dom m2"
    if "m a = None" "m2 a = Some a'" for a a'
  proof (cases "m1 a")
    case None
    note * = copied_new[OF c2 None that(2)]
    from *(1) n have "h1 ! a = h ! a" by (intro copied_nth[OF c1]) simp
    with * l1 show ?thesis by simp
  next
    case (Some b)
    with s2 that have "b = a'" using map_le_Some by fastforce
    with Some have m1a: "m1 a = Some a'" by simp
    note * = copied_new[OF c1 that(1) m1a]
    from *(3) have "h2 ! a' = h1 ! a'" by (rule copied_nth[OF c2])
    moreover have "map_obj m2 (h ! a) = map_obj m1 (h ! a)"
      using *(5) s2 by (rule map_obj_agree)
    moreover from s2 *(5) have "refs_of (h ! a) \<subseteq> dom m2" by (rule map_le_dom_sub)
    ultimately show ?thesis using * l2 by simp
  qed
  show "a = b" if "m a = None" "m b = None" "m2 a = Some a'" "m2 b = Some a'" for a b a'
  proof -
    have first: "m1 x = Some a' \<and> a' < length h1" if "m x = None" "m2 x = Some a'" "m1 x = Some t" for x t
    proof -
      from s2 that(3) have "m2 x = Some t" by (rule map_le_Some)
      with that(2) have "t = a'" by simp
      with that(3) have "m1 x = Some a'" by simp
      with copied_new(3)[OF c1 that(1) this] show ?thesis by simp
    qed
    have second: "length h1 \<le> a'" if "m2 x = Some a'" "m1 x = None" for x
      using copied_new(2)[OF c2 that(2,1)] .
    show ?thesis
    proof (cases "m1 a"; cases "m1 b")
      assume "m1 a = None" "m1 b = None"
      then show ?thesis using that by (intro copied_inj[OF c2])
    next
      fix t assume "m1 a = None" "m1 b = Some t"
      with first[OF that(2,4)] second[OF that(3)] show ?thesis by fastforce
    next
      fix t assume "m1 a = Some t" "m1 b = None"
      with first[OF that(1,3)] second[OF that(4)] show ?thesis by fastforce
    next
      fix t u assume "m1 a = Some t" "m1 b = Some u"
      with first[OF that(1,3)] first[OF that(2,4)] have "m1 a = Some a'" "m1 b = Some a'" by simp_all
      then show ?thesis using that by (intro copied_inj[OF c1])
    qed
  qed
qed

lemma closed_append: "closed n h \<Longrightarrow> n \<le> length h \<Longrightarrow> closed n (h @ hs)"
  by (simp add: closed_def nth_append)

lemma copied_alloc:
  assumes c: "copied n (m(a \<mapsto> length h)) (h @ [p]) m' h'"
    and fresh: "m a = None" and a: "a < n" and n: "n \<le> length h"
    and refs: "refs_of (h ! a) \<subseteq> dom m'"
  shows "copied n m h m' (h'[length h := map_obj m' (h ! a)])"
proof (rule copiedI)
  let ?h' = "h'[length h := map_obj m' (h ! a)]"
  let ?m = "m(a \<mapsto> length h)"
  from copied_length[OF c] have len: "Suc (length h) \<le> length h'" by simp
  from copied_take[OF c] have tk: "take (Suc (length h)) h' = h @ [p]" by simp
  note sub = copied_memo[OF c]
  have "?m a = Some (length h)" by simp
  with sub have ma: "m' a = Some (length h)" by (rule map_le_Some)
  show "m \<subseteq>\<^sub>m m'"
    unfolding map_le_def
  proof
    fix x assume "x \<in> dom m"
    with fresh have "x \<noteq> a" by auto
    then have "?m x = m x" by simp
    moreover from \<open>x \<in> dom m\<close> obtain y where "m x = Some y" by auto
    with \<open>x \<noteq> a\<close> have "?m x = Some y" by simp
    with sub have "m' x = Some y" by (rule map_le_Some)
    ultimately show "m x = m' x" using \<open>m x = Some y\<close> by simp
  qed
  show "length h \<le> length ?h'" using len by simp
  show "take (length h) ?h' = h"
  proof -
    have "take (length h) h' = take (length h) (take (Suc (length h)) h')"
      by (simp add: min_def)
    then have "take (length h) h' = h" using tk by simp
    then show ?thesis by simp
  qed
  have other: "x < n \<and> Suc (length h) \<le> t \<and> t < length h' \<and>
      h' ! t = map_obj m' (h ! x) \<and> refs_of (h ! x) \<subseteq> dom m'"
    if "x \<noteq> a" "m x = None" "m' x = Some t" for x t
  proof -
    from that have mx: "?m x = None" by simp
    note * = copied_new[OF c mx that(3)]
    from *(1) n have "(h @ [p]) ! x = h ! x" by (simp add: nth_append)
    with * show ?thesis by simp
  qed
  show "b < n \<and> length h \<le> b' \<and> b' < length ?h' \<and>
         ?h' ! b' = map_obj m' (h ! b) \<and> refs_of (h ! b) \<subseteq> dom m'"
    if "m b = None" "m' b = Some b'" for b b'
  proof (cases "b = a")
    case True
    with that ma have "b' = length h" by simp
    with True a len refs show ?thesis by simp
  next
    case False
    from other[OF False that] show ?thesis by simp
  qed
  show "b = c" if "m b = None" "m c = None" "m' b = Some t" "m' c = Some t" for b c t
  proof (cases "b = a"; cases "c = a")
    assume ne: "b \<noteq> a" "c \<noteq> a"
    with that have "?m b = None" "?m c = None" by simp_all
    then show ?thesis using that(3,4) by (rule copied_inj[OF c])
  next
    assume "b = a" "c \<noteq> a"
    with that ma other[OF \<open>c \<noteq> a\<close> that(2,4)] show ?thesis by simp
  next
    assume "b \<noteq> a" "c = a"
    with that ma other[OF \<open>b \<noteq> a\<close> that(1,3)] show ?thesis by simp
  qed simp
qed

lemma zip_keys_map:
  "zip (map fst kvs) (map f (map snd kvs)) = map (\<lambda>(k, v). (k, f v)) kvs"
  by (induction kvs) auto

lemma closed_obj_vals:
  "closed n h \<Longrightarrow> a < n \<Longrightarrow> v \<in> set (obj_vals (h ! a)) \<Longrightarrow> val_refs v \<subseteq> {..<n}"
  unfolding closed_def refs_of_def by blast

lemma deepcopy_copied:
  "deepcopy d v m h = Some (v', m', h') \<Longrightarrow> n \<le> length h \<Longrightarrow> closed n h \<Longrightarrow>
     val_refs v \<subseteq> {..<n} \<Longrightarrow>
     copied n m h m' h' \<and> v' = map_val m' v \<and> val_refs v \<subseteq> dom m'"
  "deepcopy_all d vs m h = Some (xs, m', h') \<Longrightarrow> n \<le> length h \<Longrightarrow> closed n h \<Longrightarrow>
     \<forall>v \<in> set vs. val_refs v \<subseteq> {..<n} \<Longrightarrow>
     copied n m h m' h' \<and> xs = map (map_val m') vs \<and> (\<forall>v \<in> set vs. val_refs v \<subseteq> dom m')"
proof (induction d v m h and d vs m h arbitrary: v' m' h' and xs m' h'
    rule: deepcopy_deepcopy_all.induct)
  case (1 depth a memo h)
  from "1.prems"(4) have an: "a < n" by simp
  with "1.prems"(2) have ah: "a < length h" by simp
  show ?case
  proof (cases "memo a")
    case (Some t)
    with "1.prems"(1) have "v' = HRef t" "m' = memo" "h' = h" by simp_all
    with Some show ?thesis by (auto simp: copied_refl)
  next
    case None
    with "1.prems"(1) ah obtain depth' where d: "depth = Suc depth'"
      by (cases depth) simp_all
    show ?thesis
    proof (cases "h ! a")
      case (HDict kvs)
      have "deepcopy depth (HRef a) memo h =
          (case deepcopy_all depth' (map snd kvs) (memo(a \<mapsto> length h)) (h @ [HDict []]) of
             None \<Rightarrow> None
           | Some (xs, memo', h') \<Rightarrow>
               Some (HRef (length h), memo', h'[length h := HDict (zip (map fst kvs) xs)]))"
        by (simp only: deepcopy.simps None ah d HDict Let_def option.case if_True nat.case hobj.case)
      with "1.prems"(1) obtain ys h0 where
        call: "deepcopy_all depth' (map snd kvs) (memo(a \<mapsto> length h)) (h @ [HDict []]) =
                 Some (ys, m', h0)"
        and res: "v' = HRef (length h)" "h' = h0[length h := HDict (zip (map fst kvs) ys)]"
        by (cases "deepcopy_all depth' (map snd kvs) (memo(a \<mapsto> length h)) (h @ [HDict []])")
           auto
      have kids: "\<forall>v \<in> set (map snd kvs). val_refs v \<subseteq> {..<n}"
        using closed_obj_vals[OF "1.prems"(3) an] HDict by simp
      have n': "n \<le> length (h @ [HDict []])" using "1.prems"(2) by simp
      note ih = "1.IH"(1)[OF None ah d refl HDict call n' closed_append[OF "1.prems"(3,2)] kids]
      from ih have c: "copied n (memo(a \<mapsto> length h)) (h @ [HDict []]) m' h0"
        and ys: "ys = map (map_val m') (map snd kvs)"
        and dom: "\<forall>v \<in> set (map snd kvs). val_refs v \<subseteq> dom m'"
        by blast+
      from dom HDict have refs: "refs_of (h ! a) \<subseteq> dom m'"
        by (auto simp: refs_of_def)
      have "HDict (zip (map fst kvs) ys) = map_obj m' (h ! a)"
        unfolding ys HDict by (simp only: map_obj.simps zip_keys_map)
      with copied_alloc[OF c None an "1.prems"(2) refs]
      have "copied n memo h m' h'"
        unfolding res by simp
      moreover have "m' a = Some (length h)"
        by (rule map_le_Some[OF copied_memo[OF c]]) simp
      ultimately show ?thesis using res(1) by auto
    next
      case (HList vs)
      have "deepcopy depth (HRef a) memo h =
          (case deepcopy_all depth' vs (memo(a \<mapsto> length h)) (h @ [HList []]) of
             None \<Rightarrow> None
           | Some (xs, memo', h') \<Rightarrow> Some (HRef (length h), memo', h'[length h := HList xs]))"
        by (simp only: deepcopy.simps None ah d HList Let_def option.case if_True nat.case hobj.case)
      with "1.prems"(1) obtain ys h0 where
        call: "deepcopy_all depth' vs (memo(a \<mapsto> length h)) (h @ [HList []]) = Some (ys, m', h0)"
        and res: "v' = HRef (length h)" "h' = h0[length h := HList ys]"
        by (cases "deepcopy_all depth' vs (memo(a \<mapsto> length h)) (h @ [HList []])") auto
      have kids: "\<forall>v \<in> set vs. val_refs v \<subseteq> {..<n}"
        using closed_obj_vals[OF "1.prems"(3) an] HList by simp
      have n': "n \<le> length (h @ [HList []])" using "1.prems"(2) by simp
      note ih = "1.IH"(2)[OF None ah d refl HList call n' closed_append[OF "1.prems"(3,2)] kids]
      from ih have c: "copied n (memo(a \<mapsto> length h)) (h @ [HList []]) m' h0"
        and ys: "ys = map (map_val m') vs"
        and dom: "\<forall>v \<in> set vs. val_refs v \<subseteq> dom m'"
        by blast+
      from dom HList have refs: "refs_of (h ! a) \<subseteq> dom m'"
        by (auto simp: refs_of_def)
      have "HList ys = map_obj m' (h ! a)"
        unfolding ys HList by (simp only: map_obj.simps)
      with copied_alloc[OF c None an "1.prems"(2) refs]
      have "copied n memo h m' h'"
        unfolding res by simp
      moreover have "m' a = Some (length h)"
        by (rule map_le_Some[OF copied_memo[OF c]]) simp
      ultimately show ?thesis using res(1) by auto
    qed
  qed
next
  case (8 depth v vs memo h)
  from "8.prems"(1) obtain x m1 h1 where
    first: "deepcopy depth v memo h = Some (x, m1, h1)"
    by (cases "deepcopy depth v memo h") (auto simp del: deepcopy.simps)
  with "8.prems"(1) obtain ys where
    rest: "deepcopy_all depth vs m1 h1 = Some (ys, m', h')"
    and xs: "xs = x # ys"
    by (cases "deepcopy_all depth vs m1 h1") (auto simp del: deepcopy.simps)
  from "8.prems"(4) have v: "val_refs v \<subseteq> {..<n}" and vs: "\<forall>v \<in> set vs. val_refs v \<subseteq> {..<n}"
    by simp_all
  from "8.IH"(1)[OF first "8.prems"(2,3) v]
  have c1: "copied n memo h m1 h1" and x: "x = map_val m1 v" and dv: "val_refs v \<subseteq> dom m1"
    by blast+
  note l1 = copied_length[OF c1] and t1 = copied_take[OF c1]
  have n1: "n \<le> length h1" using "8.prems"(2) l1 by simp
  have cl1: "closed n h1"
    unfolding closed_def
  proof (intro allI impI)
    fix a assume "a < n"
    with "8.prems"(2) have "a < length h" by simp
    then have "take (length h) h1 ! a = h1 ! a" by (rule nth_take)
    then have "h1 ! a = h ! a" using t1 by simp
    with "8.prems"(3) \<open>a < n\<close> show "refs_of (h1 ! a) \<subseteq> {..<n}" by (simp add: closed_def)
  qed
  from "8.IH"(2)[OF first refl refl rest n1 cl1 vs]
  have c2: "copied n m1 h1 m' h'" and ys: "ys = map (map_val m') vs"
    and dvs: "\<forall>v \<in> set vs. val_refs v \<subseteq> dom m'"
    by blast+
  note sub = copied_memo[OF c2]
  have "copied n memo h m' h'" using c1 c2 "8.prems"(2) by (rule copied_trans)
  moreover have "x = map_val m' v" using x map_val_agree[OF dv sub] by simp
  moreover have "val_refs v \<subseteq> dom m'" using sub dv by (rule map_le_dom_sub)
  ultimately show ?case using xs ys dvs by simp
qed (simp_all add: copied_refl)

lemma closed_copied:
  assumes "copied n m h m' h'" "closed n h" "n \<le> length h"
  shows "closed n h'"
  unfolding closed_def
proof (intro allI impI)
  fix a assume "a < n"
  with assms(3) have "h' ! a = h ! a" by (intro copied_nth[OF assms(1)]) simp
  with assms(2) \<open>a < n\<close> show "refs_of (h' ! a) \<subseteq> {..<n}" by (simp add: closed_def)
qed

lemma card_unmemoized_mono:
  assumes "m \<subseteq>\<^sub>m m'"
  shows "card {a. a < n \<and> m' a = None} \<le> card {a. a < (n::nat) \<and> m a = None}"
proof (rule card_mono)
  show "finite {a. a < n \<and> m a = None}" by simp
  show "{a. a < n \<and> m' a = None} \<subseteq> {a. a < n \<and> m a = None}"
  proof
    fix a assume "a \<in> {a. a < n \<and> m' a = None}"
    then have a: "a < n" "m' a = None" by simp_all
    have "m a = None"
    proof (cases "m a")
      case (Some t)
      with assms have "m' a = Some t" by (rule map_le_Some)
      with a show ?thesis by simp
    qed simp
    with a show "a \<in> {a. a < n \<and> m a = None}" by simp
  qed
qed

lemma card_unmemoized_upd:
  assumes "a < n" "m a = None"
  shows "Suc (card {x. x < n \<and> (m(a \<mapsto> t)) x = None}) = card {x. x < (n::nat) \<and> m x = None}"
proof -
  have "{x. x < n \<and> (m(a \<mapsto> t)) x = None} = {x. x < n \<and> m x = None} - {a}"
    by auto
  moreover have "Suc (card ({x. x < n \<and> m x = None} - {a})) = card {x. x < n \<and> m x = None}"
    by (rule card_Suc_Diff1) (use assms in simp_all)
  ultimately show ?thesis by (simp only:)
qed

lemma deepcopy_total:
  "n \<le> length h \<Longrightarrow> closed n h \<Longrightarrow> val_refs v \<subseteq> {..<n} \<Longrightarrow>
     card {a. a < n \<and> m a = None} \<le> d \<Longrightarrow> deepcopy d v m h \<noteq> None"
  "n \<le> length h \<Longrightarrow> closed n h \<Longrightarrow> \<forall>v \<in> set vs. val_refs v \<subseteq> {..<n} \<Longrightarrow>
     card {a. a < n \<and> m a = None} \<le> d \<Longrightarrow> deepcopy_all d vs m h \<noteq> None"
proof (induction d v m h and d vs m h rule: deepcopy_deepcopy_all.induct)
  case (1 depth a memo h)
  from "1.prems"(3) have an: "a < n" by simp
  with "1.prems"(1) have ah: "a < length h" by simp
  show ?case
  proof (cases "memo a")
    case (Some t)
    then show ?thesis by simp
  next
    case None
    from card_unmemoized_upd[where m = memo and a = a and n = n and t = "length h", OF an None]
      "1.prems"(4)
    obtain depth' where d: "depth = Suc depth'"
      and card: "card {x. x < n \<and> (memo(a \<mapsto> length h)) x = None} \<le> depth'"
      by (cases depth) simp_all
    show ?thesis
    proof (cases "h ! a")
      case (HDict kvs)
      have kids: "\<forall>v \<in> set (map snd kvs). val_refs v \<subseteq> {..<n}"
        using closed_obj_vals[OF "1.prems"(2) an] HDict by simp
      have n': "n \<le> length (h @ [HDict []])" using "1.prems"(1) by simp
      from "1.IH"(1)[OF None ah d refl HDict n' closed_append[OF "1.prems"(2,1)] kids card]
      obtain r where "deepcopy_all depth' (map snd kvs) (memo(a \<mapsto> length h)) (h @ [HDict []]) = Some r"
        by blast
      then show ?thesis
        by (simp only: deepcopy.simps None ah d HDict Let_def option.case if_True nat.case hobj.case
              split: prod.splits) simp
    next
      case (HList vs)
      have kids: "\<forall>v \<in> set vs. val_refs v \<subseteq> {..<n}"
        using closed_obj_vals[OF "1.prems"(2) an] HList by simp
      have n': "n \<le> length (h @ [HList []])" using "1.prems"(1) by simp
      from "1.IH"(2)[OF None ah d refl HList n' closed_append[OF "1.prems"(2,1)] kids card]
      obtain r where "deepcopy_all depth' vs (memo(a \<mapsto> length h)) (h @ [HList []]) = Some r"
        by blast
      then show ?thesis
        by (simp only: deepcopy.simps None ah d HList Let_def option.case if_True nat.case hobj.case
              split: prod.splits) simp
    qed
  qed
next
  case (8 depth v vs memo h)
  from "8.prems"(3) have v: "val_refs v \<subseteq> {..<n}" and vs: "\<forall>v \<in> set vs. val_refs v \<subseteq> {..<n}"
    by simp_all
  from "8.IH"(1)[OF "8.prems"(1,2) v "8.prems"(4)]
  obtain x m1 h1 where first: "deepcopy depth v memo h = Some (x, m1, h1)"
    by (cases "deepcopy depth v memo h") auto
  from deepcopy_copied(1)[OF first "8.prems"(1,2) v] have c1: "copied n memo h m1 h1" by simp
  have n1: "n \<le> length h1" using "8.prems"(1) copied_length[OF c1] by simp
  have cl1: "closed n h1" using c1 "8.prems"(2,1) by (rule closed_copied)
  have card1: "card {a. a < n \<and> m1 a = None} \<le> depth"
    using card_unmemoized_mono[OF copied_memo[OF c1], of n] "8.prems"(4) by simp
  from "8.IH"(2)[OF first refl refl n1 cl1 vs card1]
  obtain r where "deepcopy_all depth vs m1 h1 = Some r" by blast
  with first show ?case by (simp split: prod.splits)
qed simp_all

text \<open>
  The copy \<^verbatim>\<open>deepcopy(item)\<close> as the queue functions make it, starting from an
  empty memo: it returns whenever the objects below \<open>n\<close> refer only to each other
  and the item is one of them.
\<close>

lemma deepcopy_item:
  assumes "n \<le> length h" "closed n h" "val_refs item \<subseteq> {..<n}"
  shows "\<exists>new_item m h1. deepcopy (length h) item Map.empty h = Some (new_item, m, h1) \<and>
           copied n Map.empty h m h1 \<and> new_item = map_val m item \<and> val_refs item \<subseteq> dom m"
proof -
  have "card {a. a < n \<and> (Map.empty :: addr \<rightharpoonup> addr) a = None} \<le> length h"
    using assms(1) by simp
  from deepcopy_total(1)[OF assms this]
  obtain new_item m h1 where r: "deepcopy (length h) item Map.empty h = Some (new_item, m, h1)"
    by (cases "deepcopy (length h) item Map.empty h") auto
  from deepcopy_copied(1)[OF r assms] r show ?thesis by blast
qed


section \<open>Properties of the queue functions\<close>

lemma h_getitem_Inr:
  assumes "h_getitem h v k = Inr x"
  shows "\<exists>a kvs. v = HRef a \<and> a < length h \<and> h ! a = HDict kvs \<and> map_of kvs k = Some x"
proof -
  from assms obtain a where v: "v = HRef a" and a: "a < length h"
    by (cases v) (auto simp: h_getitem_def split: if_splits)
  with assms obtain kvs where "h ! a = HDict kvs" "map_of kvs k = Some x"
    by (cases "h ! a") (auto simp: h_getitem_def split: option.splits)
  with v a show ?thesis by blast
qed

lemma h_getitem_dict:
  "a < length h \<Longrightarrow> h ! a = HDict kvs \<Longrightarrow>
   h_getitem h (HRef a) k = (case map_of kvs k of None \<Rightarrow> Inl (KeyError k) | Some x \<Rightarrow> Inr x)"
  by (simp add: h_getitem_def)

lemma h_setitem_dict:
  "a < length h \<Longrightarrow> h ! a = HDict kvs \<Longrightarrow>
   h_setitem h (HRef a) k x = Inr (h[a := HDict (dict_set k x kvs)])"
  by (simp add: h_setitem_def)

lemma map_of_dict_set:
  "map_of (dict_set k x kvs) k' = (if k' = k then Some x else map_of kvs k')"
  by (induction kvs) auto

lemma map_of_renamed:
  "map_of (map (\<lambda>(k, v). (k, f v)) kvs) k = map_option f (map_of kvs k)"
  by (induction kvs) auto

lemma take_update_above: "n \<le> t \<Longrightarrow> take n (xs[t := x]) = take n xs"
  by simp

text \<open>
  The state after the copy of an item whose document is a stored dictionary, and
  after some fields other than \<^verbatim>\<open>document\<close> of the new document have been
  written: \<open>hc\<close> differs from the store \<open>h1\<close> after the copy only at the new
  document \<open>d'\<close>. Then the reads and the write of one more assignment are as follows.
\<close>

lemma document_access:
  assumes c: "copied n Map.empty h m h1" and n: "n \<le> length h"
    and a: "a < n" "h ! a = HDict kvs" "map_of kvs ''document'' = Some (HRef d)"
    and d: "d < n" "h ! d = HDict dkvs"
    and ma: "m a = Some a'" and md: "m d = Some d'"
    and len: "length hc = length h1"
    and same: "\<forall>t<length hc. t \<noteq> d' \<longrightarrow> hc ! t = h1 ! t"
    and doc: "hc ! d' = HDict ckvs" "map_of ckvs ''document'' = map_of (map (\<lambda>(k, v). (k, map_val m v)) dkvs) ''document''"
  shows "h_getitem hc (HRef a) ''document'' = Inr (HRef d)"
    and "h_getitem hc (HRef d) k = (case map_of dkvs k of None \<Rightarrow> Inl (KeyError k) | Some v \<Rightarrow> Inr v)"
    and "h_getitem hc (HRef a') ''document'' = Inr (HRef d')"
    and "h_setitem hc (HRef d') k x = Inr (hc[d' := HDict (dict_set k x ckvs)])"
    and "length h \<le> d'" and "d' < length hc"
proof -
  note l1 = copied_length[OF c]
  have e: "(Map.empty :: addr \<rightharpoonup> addr) x = None" for x by simp
  note na = copied_new[OF c e ma] and nd = copied_new[OF c e md]
  show d'h: "length h \<le> d'" by (rule nd(2))
  show d'c: "d' < length hc" using nd(3) len by simp
  have low: "hc ! t = h ! t" if "t < n" for t
  proof -
    from that n have t: "t < length h" by simp
    with d'h l1 len have "t < length hc" "t \<noteq> d'" by simp_all
    then have "hc ! t = h1 ! t" using same by simp
    with copied_nth[OF c t] show ?thesis by simp
  qed
  have ahc: "a < length hc" and dhc: "d < length hc"
    using a(1) d(1) n l1 len by simp_all
  show "h_getitem hc (HRef a) ''document'' = Inr (HRef d)"
    using h_getitem_dict[OF ahc, of kvs] low[OF a(1)] a(2,3) by simp
  show "h_getitem hc (HRef d) k = (case map_of dkvs k of None \<Rightarrow> Inl (KeyError k) | Some v \<Rightarrow> Inr v)"
    using h_getitem_dict[OF dhc, of dkvs] low[OF d(1)] d(2) by simp
  show "h_setitem hc (HRef d') k x = Inr (hc[d' := HDict (dict_set k x ckvs)])"
    using d'c doc(1) by (rule h_setitem_dict)
  have a'c: "a' < length hc" using na(3) len by simp
  have h1d: "h1 ! d' = HDict (map (\<lambda>(k, v). (k, map_val m v)) dkvs)"
    using nd(4) d(2) by simp
  have h1a: "h1 ! a' = HDict (map (\<lambda>(k, v). (k, map_val m v)) kvs)"
    using na(4) a(2) by simp
  have "\<exists>nkvs. hc ! a' = HDict nkvs \<and> map_of nkvs ''document'' = Some (HRef d')"
  proof (cases "a' = d'")
    case True
    from copied_inj[OF c e e ma] md True have "a = d" by simp
    with a(2) d(2) have "kvs = dkvs" by simp
    with a(3) md have "map_of (map (\<lambda>(k, v). (k, map_val m v)) dkvs) ''document'' = Some (HRef d')"
      by (simp add: map_of_renamed)
    with doc True show ?thesis by simp
  next
    case False
    with a'c have "hc ! a' = h1 ! a'" using same by simp
    with h1a a(3) md show ?thesis by (simp add: map_of_renamed)
  qed
  then obtain nkvs where "hc ! a' = HDict nkvs" "map_of nkvs ''document'' = Some (HRef d')" by blast
  with h_getitem_dict[OF a'c, of nkvs] show "h_getitem hc (HRef a') ''document'' = Inr (HRef d')"
    by simp
qed


lemma copied_item_facts:
  assumes c: "copied n Map.empty h m h1" and n: "n \<le> length h" and cl: "closed n h"
    and it: "val_refs item \<subseteq> {..<n}" and dm: "val_refs item \<subseteq> dom m"
    and doc: "h_getitem h1 item ''document'' = Inr document"
    and fld: "h_getitem h1 document k = Inr x"
  shows "\<exists>a d a' d' kvs dkvs. item = HRef a \<and> document = HRef d \<and> a < n \<and> d < n \<and>
           h ! a = HDict kvs \<and> map_of kvs ''document'' = Some (HRef d) \<and> h ! d = HDict dkvs \<and>
           m a = Some a' \<and> m d = Some d'"
proof -
  from h_getitem_Inr[OF doc] obtain a kvs where
    a: "item = HRef a" "h1 ! a = HDict kvs" "map_of kvs ''document'' = Some document" by blast
  from a(1) it have an: "a < n" by simp
  with n have "a < length h" by simp
  from copied_nth[OF c this] a(2) have ha: "h ! a = HDict kvs" by simp
  from h_getitem_Inr[OF fld] obtain d dkvs where
    d: "document = HRef d" "h1 ! d = HDict dkvs" by blast
  from a(3) have "document \<in> set (obj_vals (HDict kvs))"
    by (auto dest: map_of_SomeD intro: rev_image_eqI)
  with closed_obj_vals[OF cl an, of document] ha d(1) have dn: "d < n" by simp
  with n have "d < length h" by simp
  from copied_nth[OF c this] d(2) have hd: "h ! d = HDict dkvs" by simp
  from dm a(1) obtain a' where ma: "m a = Some a'" by auto
  have e: "(Map.empty :: addr \<rightharpoonup> addr) x = None" for x by simp
  from copied_new(5)[OF c e ma] ha a(3) d(1) have "d \<in> dom m"
    by (auto simp: refs_of_def dest!: map_of_SomeD) force
  then obtain d' where "m d = Some d'" by auto
  with a(1) d(1) an dn ha a(3) hd ma show ?thesis by blast
qed

lemma out_item_run:
  assumes n: "n \<le> length h" and cl: "closed n h" and it: "val_refs item \<subseteq> {..<n}"
  shows "(\<exists>e h'. out_item env item h = (Inl e, h') \<and> length h \<le> length h' \<and> take (length h) h' = h) \<or>
         (\<exists>m h1 a d a' d' kvs dkvs idv pv hx.
            copied n Map.empty h m h1 \<and> item = HRef a \<and> a < n \<and> h ! a = HDict kvs \<and>
            map_of kvs ''document'' = Some (HRef d) \<and> d < n \<and> h ! d = HDict dkvs \<and>
            map_of dkvs ''_id'' = Some idv \<and> map_of dkvs ''parent'' = Some pv \<and>
            m a = Some a' \<and> m d = Some d' \<and>
            out_item env item h =
              (Inr (HRef a'),
               h1[d' := HDict (dict_set ''parent'' (HStr (h_str env hx pv))
                           (dict_set ''_id'' (HStr (h_str env h1 idv))
                              (map (\<lambda>(k, v). (k, map_val m v)) dkvs)))]))"
proof -
  from deepcopy_item[OF assms] obtain new_item m h1 where
    deep: "deepcopy (length h) item Map.empty h = Some (new_item, m, h1)"
    and c: "copied n Map.empty h m h1" and ni: "new_item = map_val m item"
    and dm: "val_refs item \<subseteq> dom m" by blast
  note l1 = copied_length[OF c] and t1 = copied_take[OF c]
  have run: "out_item env item h =
      (case out_assign env item new_item ''_id'' h1 of
         Inl e \<Rightarrow> (Inl e, h1)
       | Inr h2 \<Rightarrow>
           (case out_assign env item new_item ''parent'' h2 of
              Inl e \<Rightarrow> (Inl e, h2)
            | Inr h3 \<Rightarrow> (Inr new_item, h3)))"
    by (simp add: out_item_def deep)
  show ?thesis
  proof (cases "h_getitem h1 item ''document''")
    case (Inl e)
    then have "out_item env item h = (Inl e, h1)" by (simp add: run out_assign_def)
    with l1 t1 show ?thesis by blast
  next
    case (Inr document)
    show ?thesis
    proof (cases "h_getitem h1 document ''_id''")
      case (Inl e)
      with Inr have "out_item env item h = (Inl e, h1)" by (simp add: run out_assign_def)
      with l1 t1 show ?thesis by blast
    next
      case idv: (Inr idv)
      from copied_item_facts[OF c n cl it dm Inr idv] obtain a d a' d' kvs dkvs where
        f: "item = HRef a" "document = HRef d" "a < n" "d < n" "h ! a = HDict kvs"
           "map_of kvs ''document'' = Some (HRef d)" "h ! d = HDict dkvs"
           "m a = Some a'" "m d = Some d'" by blast
      let ?dk = "map (\<lambda>(k, v). (k, map_val m v)) dkvs"
      have e: "(Map.empty :: addr \<rightharpoonup> addr) x = None" for x by simp
      have h1d: "h1 ! d' = HDict ?dk"
        using copied_new(4)[OF c e f(9)] f(7) by simp
      have new: "new_item = HRef a'" using ni f(1,8) by simp
      have same1: "\<forall>t<length h1. t \<noteq> d' \<longrightarrow> h1 ! t = h1 ! t" by simp
      note acc1 = document_access[OF c n f(3,5,6,4,7,8,9) refl same1 h1d refl]
      have id_some: "map_of dkvs ''_id'' = Some idv"
        using acc1(2)[of "''_id''"] idv f(2) by (simp split: option.splits)
      let ?i = "HStr (h_str env h1 idv)"
      let ?h2 = "h1[d' := HDict (dict_set ''_id'' ?i ?dk)]"
      have step1: "out_assign env item new_item ''_id'' h1 = Inr ?h2"
        unfolding out_assign_def f(1) new
        by (simp add: acc1(1) acc1(2) acc1(3) acc1(4) id_some)
      have len2: "length ?h2 = length h1" by simp
      have same2: "\<forall>t<length ?h2. t \<noteq> d' \<longrightarrow> ?h2 ! t = h1 ! t" by simp
      have doc2: "?h2 ! d' = HDict (dict_set ''_id'' ?i ?dk)"
        using acc1(6) by simp
      have keep2: "map_of (dict_set ''_id'' ?i ?dk) ''document'' = map_of ?dk ''document''"
        by (simp add: map_of_dict_set)
      note acc2 = document_access[OF c n f(3,5,6,4,7,8,9) len2 same2 doc2 keep2]
      have t2: "take (length h) ?h2 = h" using acc1(5) t1 by simp
      show ?thesis
      proof (cases "map_of dkvs ''parent''")
        case None
        have "out_assign env item new_item ''parent'' ?h2 = Inl (KeyError ''parent'')"
          unfolding out_assign_def f(1) new
          by (simp add: acc2(1) acc2(2) None)
        then have "out_item env item h = (Inl (KeyError ''parent''), ?h2)"
          unfolding run step1 by simp
        with l1 t2 show ?thesis by auto
      next
        case (Some pv)
        let ?p = "HStr (h_str env ?h2 pv)"
        have "out_assign env item new_item ''parent'' ?h2 =
              Inr (?h2[d' := HDict (dict_set ''parent'' ?p (dict_set ''_id'' ?i ?dk))])"
          unfolding out_assign_def f(1) new
          by (simp add: acc2(1) acc2(2) acc2(3) acc2(4) Some)
        then have "out_item env item h =
            (Inr (HRef a'), h1[d' := HDict (dict_set ''parent'' ?p (dict_set ''_id'' ?i ?dk))])"
          unfolding run step1 by (simp add: new)
        with c f id_some Some show ?thesis by blast
      qed
    qed
  qed
qed


lemma in_item_run:
  assumes n: "n \<le> length h" and cl: "closed n h" and it: "val_refs item \<subseteq> {..<n}"
  shows "(\<exists>e h'. in_item env item h = (Inl e, h') \<and> length h \<le> length h' \<and> take (length h) h' = h) \<or>
         (\<exists>m h1 a d a' d' kvs dkvs idv pv x y.
            copied n Map.empty h m h1 \<and> item = HRef a \<and> a < n \<and> h ! a = HDict kvs \<and>
            map_of kvs ''document'' = Some (HRef d) \<and> d < n \<and> h ! d = HDict dkvs \<and>
            map_of dkvs ''_id'' = Some idv \<and> map_of dkvs ''parent'' = Some pv \<and>
            h_ObjectId env idv = Inr x \<and> h_ObjectId env pv = Inr y \<and>
            m a = Some a' \<and> m d = Some d' \<and>
            in_item env item h =
              (Inr (HRef a'),
               h1[d' := HDict (dict_set ''parent'' (HObjectId y)
                           (dict_set ''_id'' (HObjectId x)
                              (map (\<lambda>(k, v). (k, map_val m v)) dkvs)))]))"
proof -
  from deepcopy_item[OF assms] obtain new_item m h1 where
    deep: "deepcopy (length h) item Map.empty h = Some (new_item, m, h1)"
    and c: "copied n Map.empty h m h1" and ni: "new_item = map_val m item"
    and dm: "val_refs item \<subseteq> dom m" by blast
  note l1 = copied_length[OF c] and t1 = copied_take[OF c]
  have run: "in_item env item h =
      (case h_getitem h1 item ''document'' of
         Inl e \<Rightarrow> (Inl e, h1)
       | Inr document \<Rightarrow>
           (case in_assign env document new_item ''_id'' h1 of
              Inl e \<Rightarrow> (Inl e, h1)
            | Inr h2 \<Rightarrow>
                (case in_assign env document new_item ''parent'' h2 of
                   Inl e \<Rightarrow> (Inl e, h2)
                 | Inr h3 \<Rightarrow> (Inr new_item, h3))))"
    by (simp add: in_item_def deep)
  show ?thesis
  proof (cases "h_getitem h1 item ''document''")
    case (Inl e)
    then have "in_item env item h = (Inl e, h1)" by (simp add: run)
    with l1 t1 show ?thesis by blast
  next
    case (Inr document)
    show ?thesis
    proof (cases "h_getitem h1 document ''_id''")
      case (Inl e)
      with Inr have "in_item env item h = (Inl e, h1)" by (simp add: run in_assign_def)
      with l1 t1 show ?thesis by blast
    next
      case idv: (Inr idv)
      from copied_item_facts[OF c n cl it dm Inr idv] obtain a d a' d' kvs dkvs where
        f: "item = HRef a" "document = HRef d" "a < n" "d < n" "h ! a = HDict kvs"
           "map_of kvs ''document'' = Some (HRef d)" "h ! d = HDict dkvs"
           "m a = Some a'" "m d = Some d'" by blast
      let ?dk = "map (\<lambda>(k, v). (k, map_val m v)) dkvs"
      have e: "(Map.empty :: addr \<rightharpoonup> addr) x = None" for x by simp
      have h1d: "h1 ! d' = HDict ?dk"
        using copied_new(4)[OF c e f(9)] f(7) by simp
      have new: "new_item = HRef a'" using ni f(1,8) by simp
      have same1: "\<forall>t<length h1. t \<noteq> d' \<longrightarrow> h1 ! t = h1 ! t" by simp
      note acc1 = document_access[OF c n f(3,5,6,4,7,8,9) refl same1 h1d refl]
      have id_some: "map_of dkvs ''_id'' = Some idv"
        using acc1(2)[of "''_id''"] idv f(2) by (simp split: option.splits)
      have run2: "in_item env item h =
           (case in_assign env (HRef d) (HRef a') ''_id'' h1 of
              Inl e \<Rightarrow> (Inl e, h1)
            | Inr h2 \<Rightarrow>
                (case in_assign env (HRef d) (HRef a') ''parent'' h2 of
                   Inl e \<Rightarrow> (Inl e, h2)
                 | Inr h3 \<Rightarrow> (Inr (HRef a'), h3)))"
        unfolding run Inr sum.case f(2) new ..
      show ?thesis
      proof (cases "h_ObjectId env idv")
        case (Inl e)
        have "in_assign env (HRef d) (HRef a') ''_id'' h1 = Inl e"
          unfolding in_assign_def by (simp add: acc1(2) id_some Inl)
        then have "in_item env item h = (Inl e, h1)" unfolding run2 by simp
        with l1 t1 show ?thesis by blast
      next
        case x: (Inr x)
        let ?h2 = "h1[d' := HDict (dict_set ''_id'' (HObjectId x) ?dk)]"
        have step1: "in_assign env (HRef d) (HRef a') ''_id'' h1 = Inr ?h2"
          unfolding in_assign_def
          by (simp add: acc1(2) acc1(3) acc1(4) id_some x)
        have len2: "length ?h2 = length h1" by simp
        have same2: "\<forall>t<length ?h2. t \<noteq> d' \<longrightarrow> ?h2 ! t = h1 ! t" by simp
        have doc2: "?h2 ! d' = HDict (dict_set ''_id'' (HObjectId x) ?dk)"
          using acc1(6) by simp
        have keep2: "map_of (dict_set ''_id'' (HObjectId x) ?dk) ''document'' = map_of ?dk ''document''"
          by (simp add: map_of_dict_set)
        note acc2 = document_access[OF c n f(3,5,6,4,7,8,9) len2 same2 doc2 keep2]
        have t2: "take (length h) ?h2 = h" using acc1(5) t1 by simp
        show ?thesis
        proof (cases "map_of dkvs ''parent''")
          case None
          have "in_assign env (HRef d) (HRef a') ''parent'' ?h2 = Inl (KeyError ''parent'')"
            unfolding in_assign_def by (simp add: acc2(2) None)
          then have "in_item env item h = (Inl (KeyError ''parent''), ?h2)"
            unfolding run2 step1 by simp
          with l1 t2 show ?thesis by auto
        next
          case (Some pv)
          show ?thesis
          proof (cases "h_ObjectId env pv")
            case (Inl e)
            have "in_assign env (HRef d) (HRef a') ''parent'' ?h2 = Inl e"
              unfolding in_assign_def by (simp add: acc2(2) Some Inl)
            then have "in_item env item h = (Inl e, ?h2)"
              unfolding run2 step1 by simp
            with l1 t2 show ?thesis by auto
          next
            case y: (Inr y)
            have "in_assign env (HRef d) (HRef a') ''parent'' ?h2 =
                Inr (?h2[d' := HDict (dict_set ''parent'' (HObjectId y) (dict_set ''_id'' (HObjectId x) ?dk))])"
              unfolding in_assign_def
              by (simp add: acc2(2) acc2(3) acc2(4) Some y)
            then have "in_item env item h =
                (Inr (HRef a'), h1[d' := HDict (dict_set ''parent'' (HObjectId y) (dict_set ''_id'' (HObjectId x) ?dk))])"
              unfolding run2 step1 by simp
            with c f id_some Some x y show ?thesis by blast
          qed
        qed
      qed
    qed
  qed
qed

text \<open>
  The store after the copy of an item and the two writes into the copy of its
  document, seen from the original store.
\<close>

lemma copy_except_documentI:
  assumes c: "copied n Map.empty h m h1" and n: "n \<le> length h"
    and a: "a < n" "h ! a = HDict kvs" "map_of kvs ''document'' = Some (HRef d)"
    and d: "d < n" "h ! d = HDict dkvs"
    and ma: "m a = Some a'" and md: "m d = Some d'"
    and base: "take n h = take n h0" "n \<le> length h0"
  shows "copy_except_document n h0 (HRef a)
           (h1[d' := HDict (dict_set ''parent'' p (dict_set ''_id'' i
                      (map (\<lambda>(k, v). (k, map_val m v)) dkvs)))]) (HRef a')"
proof -
  let ?h' = "h1[d' := HDict (dict_set ''parent'' p (dict_set ''_id'' i
                      (map (\<lambda>(k, v). (k, map_val m v)) dkvs)))]"
  have e: "(Map.empty :: addr \<rightharpoonup> addr) x = None" for x by simp
  have low: "h0 ! t = h ! t" if "t < n" for t
  proof -
    from that have "h0 ! t = take n h0 ! t" by simp
    also have "\<dots> = take n h ! t" by (simp only: base(1))
    also from that have "\<dots> = h ! t" by simp
    finally show ?thesis .
  qed
  have doc0: "h_getitem h0 (HRef a) ''document'' = Inr (HRef d)"
    using h_getitem_dict[of a h0 kvs "''document''"] a base(2) low[OF a(1)] by simp
  have cell: "a0 < n \<and> n \<le> t \<and> t < length ?h' \<and> refs_of (h0 ! a0) \<subseteq> dom m \<and>
       (if h_getitem h0 (HRef a) ''document'' = Inr (HRef a0)
        then \<exists>i p. ?h' ! t = obj_set ''parent'' p (obj_set ''_id'' i (map_obj m (h0 ! a0)))
        else ?h' ! t = map_obj m (h0 ! a0))" if mt: "m a0 = Some t" for a0 t
  proof -
    note nw = copied_new[OF c e mt]
    from nw(1) have a0: "a0 < n" .
    from nw(2) n have nt: "n \<le> t" by simp
    from nw(3) have tl: "t < length ?h'" by simp
    from nw(5) low[OF a0] have rf: "refs_of (h0 ! a0) \<subseteq> dom m" by simp
    have last: "if h_getitem h0 (HRef a) ''document'' = Inr (HRef a0)
        then \<exists>i p. ?h' ! t = obj_set ''parent'' p (obj_set ''_id'' i (map_obj m (h0 ! a0)))
        else ?h' ! t = map_obj m (h0 ! a0)"
    proof (cases "a0 = d")
      case True
      with mt md have "t = d'" by simp
      with nw(3) have "?h' ! t = HDict (dict_set ''parent'' p (dict_set ''_id'' i
                      (map (\<lambda>(k, v). (k, map_val m v)) dkvs)))" by simp
      also have "\<dots> = obj_set ''parent'' p (obj_set ''_id'' i (map_obj m (h0 ! a0)))"
        using True low[OF d(1)] d(2) by simp
      finally show ?thesis using True doc0 by auto
    next
      case False
      have "t \<noteq> d'"
      proof
        assume "t = d'"
        with copied_inj[OF c e e mt] md have "a0 = d" by simp
        with False show False ..
      qed
      then have "?h' ! t = h1 ! t" by simp
      with nw(4) low[OF a0] have "?h' ! t = map_obj m (h0 ! a0)" by simp
      with False doc0 show ?thesis by simp
    qed
    from a0 nt tl rf last show ?thesis by blast
  qed
  have inj: "a0 = b" if "m a0 = Some t" "m b = Some t" for a0 b t
    using copied_inj[OF c e e that(1)] that(2) by simp
  have "HRef a' = map_val m (HRef a)" using ma by simp
  moreover have "val_refs (HRef a :: 'a hval) \<subseteq> dom m" using ma by auto
  ultimately show ?thesis
    unfolding copy_except_document_def using cell inj by blast
qed


lemma closed_prefix:
  assumes "closed n h0" "take n h = take n h0"
  shows "closed n h"
proof -
  have "h ! a = h0 ! a" if "a < n" for a
  proof -
    from that have "h ! a = take n h ! a" by simp
    also have "\<dots> = take n h0 ! a" by (simp only: assms(2))
    also from that have "\<dots> = h0 ! a" by simp
    finally show ?thesis .
  qed
  with assms(1) show ?thesis by (simp add: closed_def)
qed

lemma copy_except_document_later:
  assumes "copy_except_document n h0 item h' x" "length h' \<le> length h''" "take (length h') h'' = h'"
  shows "copy_except_document n h0 item h'' x"
proof -
  have same: "h'' ! t = h' ! t" if "t < length h'" for t
  proof -
    from that have "h'' ! t = take (length h') h'' ! t" by simp
    then show ?thesis by (simp only: assms(3))
  qed
  from assms(1) obtain m where m: "x = map_val m item" "val_refs item \<subseteq> dom m"
    "\<forall>a t. m a = Some t \<longrightarrow>
           a < n \<and> n \<le> t \<and> t < length h' \<and> refs_of (h0 ! a) \<subseteq> dom m \<and>
           (if h_getitem h0 item ''document'' = Inr (HRef a)
            then \<exists>i p. h' ! t = obj_set ''parent'' p (obj_set ''_id'' i (map_obj m (h0 ! a)))
            else h' ! t = map_obj m (h0 ! a))"
    "\<forall>a b t. m a = Some t \<longrightarrow> m b = Some t \<longrightarrow> a = b"
    unfolding copy_except_document_def by blast
  have "a < n \<and> n \<le> t \<and> t < length h'' \<and> refs_of (h0 ! a) \<subseteq> dom m \<and>
           (if h_getitem h0 item ''document'' = Inr (HRef a)
            then \<exists>i p. h'' ! t = obj_set ''parent'' p (obj_set ''_id'' i (map_obj m (h0 ! a)))
            else h'' ! t = map_obj m (h0 ! a))" if "m a = Some t" for a t
  proof -
    from m(3) that have *: "a < n" "n \<le> t" "t < length h'" "refs_of (h0 ! a) \<subseteq> dom m"
      "if h_getitem h0 item ''document'' = Inr (HRef a)
            then \<exists>i p. h' ! t = obj_set ''parent'' p (obj_set ''_id'' i (map_obj m (h0 ! a)))
            else h' ! t = map_obj m (h0 ! a)" by blast+
    from *(3) assms(2) have "t < length h''" by simp
    with * same[OF *(3)] show ?thesis by simp
  qed
  with m(1,2,4) show ?thesis unfolding copy_except_document_def by blast
qed

text \<open>
  One round of either loop, started on a store \<open>h\<close> that still begins with the
  store \<open>h0\<close> the function was called on.
\<close>

lemma out_item_frame:
  assumes cl: "closed (length h0) h0" and it: "val_refs item \<subseteq> {..<length h0}"
    and pre: "length h0 \<le> length h" "take (length h0) h = h0"
  shows "\<exists>r h'. out_item env item h = (r, h') \<and> length h \<le> length h' \<and> take (length h) h' = h \<and>
           (\<forall>x. r = Inr x \<longrightarrow> copy_except_document (length h0) h0 item h' x)"
proof -
  have base: "take (length h0) h = take (length h0) h0" using pre(2) by simp
  have clh: "closed (length h0) h" by (rule closed_prefix[OF cl base])
  from out_item_run[OF pre(1) clh it, of env] show ?thesis
  proof
    assume "\<exists>e h'. out_item env item h = (Inl e, h') \<and> length h \<le> length h' \<and> take (length h) h' = h"
    then show ?thesis by auto
  next
    assume "\<exists>m h1 a d a' d' kvs dkvs idv pv hx.
            copied (length h0) Map.empty h m h1 \<and> item = HRef a \<and> a < length h0 \<and> h ! a = HDict kvs \<and>
            map_of kvs ''document'' = Some (HRef d) \<and> d < length h0 \<and> h ! d = HDict dkvs \<and>
            map_of dkvs ''_id'' = Some idv \<and> map_of dkvs ''parent'' = Some pv \<and>
            m a = Some a' \<and> m d = Some d' \<and>
            out_item env item h =
              (Inr (HRef a'),
               h1[d' := HDict (dict_set ''parent'' (HStr (h_str env hx pv))
                           (dict_set ''_id'' (HStr (h_str env h1 idv))
                              (map (\<lambda>(k, v). (k, map_val m v)) dkvs)))])"
    then obtain m h1 a d a' d' kvs dkvs idv pv hx where
      c: "copied (length h0) Map.empty h m h1" and f: "item = HRef a" "a < length h0" "h ! a = HDict kvs"
        "map_of kvs ''document'' = Some (HRef d)" "d < length h0" "h ! d = HDict dkvs"
        "m a = Some a'" "m d = Some d'"
      and r: "out_item env item h =
              (Inr (HRef a'),
               h1[d' := HDict (dict_set ''parent'' (HStr (h_str env hx pv))
                           (dict_set ''_id'' (HStr (h_str env h1 idv))
                              (map (\<lambda>(k, v). (k, map_val m v)) dkvs)))])"
      by blast
    let ?h' = "h1[d' := HDict (dict_set ''parent'' (HStr (h_str env hx pv))
                           (dict_set ''_id'' (HStr (h_str env h1 idv))
                              (map (\<lambda>(k, v). (k, map_val m v)) dkvs)))]"
    have e: "(Map.empty :: addr \<rightharpoonup> addr) x = None" for x by simp
    from copied_new(2)[OF c e f(8)] have "length h \<le> d'" .
    with copied_take[OF c] have tk: "take (length h) ?h' = h" by simp
    from copied_length[OF c] have ln: "length h \<le> length ?h'" by simp
    have "copy_except_document (length h0) h0 (HRef a) ?h' (HRef a')"
      by (rule copy_except_documentI[OF c pre(1) f(2,3,4,5,6,7,8) base order_refl])
    with r f(1) ln tk show ?thesis by simp
  qed
qed

lemma in_item_frame:
  assumes cl: "closed (length h0) h0" and it: "val_refs item \<subseteq> {..<length h0}"
    and pre: "length h0 \<le> length h" "take (length h0) h = h0"
  shows "\<exists>r h'. in_item env item h = (r, h') \<and> length h \<le> length h' \<and> take (length h) h' = h \<and>
           (\<forall>x. r = Inr x \<longrightarrow> copy_except_document (length h0) h0 item h' x)"
proof -
  have base: "take (length h0) h = take (length h0) h0" using pre(2) by simp
  have clh: "closed (length h0) h" by (rule closed_prefix[OF cl base])
  from in_item_run[OF pre(1) clh it, of env] show ?thesis
  proof
    assume "\<exists>e h'. in_item env item h = (Inl e, h') \<and> length h \<le> length h' \<and> take (length h) h' = h"
    then show ?thesis by auto
  next
    assume "\<exists>m h1 a d a' d' kvs dkvs idv pv x y.
            copied (length h0) Map.empty h m h1 \<and> item = HRef a \<and> a < length h0 \<and> h ! a = HDict kvs \<and>
            map_of kvs ''document'' = Some (HRef d) \<and> d < length h0 \<and> h ! d = HDict dkvs \<and>
            map_of dkvs ''_id'' = Some idv \<and> map_of dkvs ''parent'' = Some pv \<and>
            h_ObjectId env idv = Inr x \<and> h_ObjectId env pv = Inr y \<and>
            m a = Some a' \<and> m d = Some d' \<and>
            in_item env item h =
              (Inr (HRef a'),
               h1[d' := HDict (dict_set ''parent'' (HObjectId y)
                           (dict_set ''_id'' (HObjectId x)
                              (map (\<lambda>(k, v). (k, map_val m v)) dkvs)))])"
    then obtain m h1 a d a' d' kvs dkvs x y where
      c: "copied (length h0) Map.empty h m h1" and f: "item = HRef a" "a < length h0" "h ! a = HDict kvs"
        "map_of kvs ''document'' = Some (HRef d)" "d < length h0" "h ! d = HDict dkvs"
        "m a = Some a'" "m d = Some d'"
      and r: "in_item env item h =
              (Inr (HRef a'),
               h1[d' := HDict (dict_set ''parent'' (HObjectId y)
                           (dict_set ''_id'' (HObjectId x)
                              (map (\<lambda>(k, v). (k, map_val m v)) dkvs)))])"
      by blast
    let ?h' = "h1[d' := HDict (dict_set ''parent'' (HObjectId y)
                           (dict_set ''_id'' (HObjectId x)
                              (map (\<lambda>(k, v). (k, map_val m v)) dkvs)))]"
    have e: "(Map.empty :: addr \<rightharpoonup> addr) x = None" for x by simp
    from copied_new(2)[OF c e f(8)] have "length h \<le> d'" .
    with copied_take[OF c] have tk: "take (length h) ?h' = h" by simp
    from copied_length[OF c] have ln: "length h \<le> length ?h'" by simp
    have "copy_except_document (length h0) h0 (HRef a) ?h' (HRef a')"
      by (rule copy_except_documentI[OF c pre(1) f(2,3,4,5,6,7,8) base order_refl])
    with r f(1) ln tk show ?thesis by simp
  qed
qed

lemma prefix_trans:
  assumes "length h0 \<le> length h" "take (length h0) h = h0" "length h \<le> length h'" "take (length h) h' = h"
  shows "take (length h0) h' = h0"
proof -
  from assms(1) have "take (length h0) h' = take (length h0) (take (length h) h')"
    by (simp add: min_def)
  with assms(2,4) show ?thesis by simp
qed

lemma create_queue_out_data_loop_frame:
  assumes cl: "closed (length h0) h0"
  shows "\<forall>item \<in> set queue_items. val_refs item \<subseteq> {..<length h0} \<Longrightarrow>
         length h0 \<le> length h \<Longrightarrow> take (length h0) h = h0 \<Longrightarrow>
         \<exists>r h'. create_queue_out_data_loop env queue_items items h = (r, h') \<and>
           length h \<le> length h' \<and> take (length h) h' = h \<and>
           (\<forall>out. r = Inr out \<longrightarrow>
              (\<exists>new. out = items @ new \<and>
                 list_all2 (\<lambda>item x. copy_except_document (length h0) h0 item h' x) queue_items new))"
proof (induction queue_items arbitrary: items h)
  case Nil
  then show ?case by simp
next
  case (Cons item queue_items)
  from Cons.prems(1) have it: "val_refs item \<subseteq> {..<length h0}"
    and rest: "\<forall>item \<in> set queue_items. val_refs item \<subseteq> {..<length h0}" by simp_all
  from out_item_frame[OF cl it Cons.prems(2,3), of env] obtain r1 h1 where
    s: "out_item env item h = (r1, h1)" "length h \<le> length h1" "take (length h) h1 = h"
       "\<forall>x. r1 = Inr x \<longrightarrow> copy_except_document (length h0) h0 item h1 x" by blast
  show ?case
  proof (cases r1)
    case (Inl e)
    with s show ?thesis by simp
  next
    case (Inr x)
    from Cons.prems(2) s(2) have l1: "length h0 \<le> length h1" by simp
    have t1: "take (length h0) h1 = h0"
      by (rule prefix_trans[OF Cons.prems(2,3) s(2,3)])
    from Cons.IH[OF rest l1 t1, of "items @ [x]"] obtain r h' where
      l: "create_queue_out_data_loop env queue_items (items @ [x]) h1 = (r, h')"
         "length h1 \<le> length h'" "take (length h1) h' = h1"
         "\<forall>out. r = Inr out \<longrightarrow>
              (\<exists>new. out = (items @ [x]) @ new \<and>
                 list_all2 (\<lambda>item x. copy_except_document (length h0) h0 item h' x) queue_items new)"
      by blast
    have run: "create_queue_out_data_loop env (item # queue_items) items h = (r, h')"
      using s(1) Inr l(1) by simp
    from s(2) l(2) have len: "length h \<le> length h'" by simp
    have tk: "take (length h) h' = h" by (rule prefix_trans[OF s(2,3) l(2,3)])
    from s(4) Inr have "copy_except_document (length h0) h0 item h1 x" by simp
    then have cx: "copy_except_document (length h0) h0 item h' x"
      using l(2,3) by (rule copy_except_document_later)
    have "\<exists>new. out = items @ new \<and>
            list_all2 (\<lambda>item x. copy_except_document (length h0) h0 item h' x) (item # queue_items) new"
      if "r = Inr out" for out
    proof -
      from l(4) that obtain new where new: "out = (items @ [x]) @ new"
        "list_all2 (\<lambda>item x. copy_except_document (length h0) h0 item h' x) queue_items new" by blast
      from new(1) have "out = items @ (x # new)" by simp
      moreover from cx new(2) have
        "list_all2 (\<lambda>item x. copy_except_document (length h0) h0 item h' x) (item # queue_items) (x # new)"
        by simp
      ultimately show ?thesis by blast
    qed
    with run len tk show ?thesis by blast
  qed
qed

lemma create_queue_in_data_loop_frame:
  assumes cl: "closed (length h0) h0"
  shows "\<forall>item \<in> set queue_items. val_refs item \<subseteq> {..<length h0} \<Longrightarrow>
         length h0 \<le> length h \<Longrightarrow> take (length h0) h = h0 \<Longrightarrow>
         \<exists>r h'. create_queue_in_data_loop env queue_items items h = (r, h') \<and>
           length h \<le> length h' \<and> take (length h) h' = h \<and>
           (\<forall>out. r = Inr out \<longrightarrow>
              (\<exists>new. out = items @ new \<and>
                 list_all2 (\<lambda>item x. copy_except_document (length h0) h0 item h' x) queue_items new))"
proof (induction queue_items arbitrary: items h)
  case Nil
  then show ?case by simp
next
  case (Cons item queue_items)
  from Cons.prems(1) have it: "val_refs item \<subseteq> {..<length h0}"
    and rest: "\<forall>item \<in> set queue_items. val_refs item \<subseteq> {..<length h0}" by simp_all
  from in_item_frame[OF cl it Cons.prems(2,3), of env] obtain r1 h1 where
    s: "in_item env item h = (r1, h1)" "length h \<le> length h1" "take (length h) h1 = h"
       "\<forall>x. r1 = Inr x \<longrightarrow> copy_except_document (length h0) h0 item h1 x" by blast
  show ?case
  proof (cases r1)
    case (Inl e)
    with s show ?thesis by simp
  next
    case (Inr x)
    from Cons.prems(2) s(2) have l1: "length h0 \<le> length h1" by simp
    have t1: "take (length h0) h1 = h0"
      by (rule prefix_trans[OF Cons.prems(2,3) s(2,3)])
    from Cons.IH[OF rest l1 t1, of "items @ [x]"] obtain r h' where
      l: "create_queue_in_data_loop env queue_items (items @ [x]) h1 = (r, h')"
         "length h1 \<le> length h'" "take (length h1) h' = h1"
         "\<forall>out. r = Inr out \<longrightarrow>
              (\<exists>new. out = (items @ [x]) @ new \<and>
                 list_all2 (\<lambda>item x. copy_except_document (length h0) h0 item h' x) queue_items new)"
      by blast
    have run: "create_queue_in_data_loop env (item # queue_items) items h = (r, h')"
      using s(1) Inr l(1) by simp
    from s(2) l(2) have len: "length h \<le> length h'" by simp
    have tk: "take (length h) h' = h" by (rule prefix_trans[OF s(2,3) l(2,3)])
    from s(4) Inr have "copy_except_document (length h0) h0 item h1 x" by simp
    then have cx: "copy_except_document (length h0) h0 item h' x"
      using l(2,3) by (rule copy_except_document_later)
    have "\<exists>new. out = items @ new \<and>
            list_all2 (\<lambda>item x. copy_except_document (length h0) h0 item h' x) (item # queue_items) new"
      if "r = Inr out" for out
    proof -
      from l(4) that obtain new where new: "out = (items @ [x]) @ new"
        "list_all2 (\<lambda>item x. copy_except_document (length h0) h0 item h' x) queue_items new" by blast
      from new(1) have "out = items @ (x # new)" by simp
      moreover from cx new(2) have
        "list_all2 (\<lambda>item x. copy_except_document (length h0) h0 item h' x) (item # queue_items) (x # new)"
        by simp
      ultimately show ?thesis by blast
    qed
    with run len tk show ?thesis by blast
  qed
qed


subsection \<open>The queue functions copy\<close>


lemma example_store_closed: "closed (length example_store) example_store"
  by (auto simp add: closed_def example_store_def refs_of_def less_Suc_eq)

lemma example_store_deepcopy:
  "deepcopy (length example_store) (HRef 0) Map.empty example_store =
     Some (HRef 3, [0 \<mapsto> 3, 1 \<mapsto> 4, 2 \<mapsto> 5],
       example_store @
       [HDict [(''asset'', HStr ''hero''), (''document'', HRef 4), (''nodes'', HRef 5)],
        HDict [(''_id'', HObjectId look_id), (''name'', HStr ''heroLook''),
               (''parent'', HObjectId hero_id)],
        HList [HStr ''|hero|body'', HStr ''|hero|head'']])"
  by (simp add: example_store_def eval_nat_numeral)

text \<open>
  C8. \<^verbatim>\<open>create_queue_out_data\<close> and \<^verbatim>\<open>create_queue_in_data\<close> leave the queue items
  they are given unchanged.
\<close>

theorem create_queue_data_copies_items:
  assumes "closed (length h) h"
    and "\<forall>item \<in> set queue_items. val_refs item \<subseteq> {..<length h}"
  shows "(\<exists>r h'. create_queue_out_data env queue_items h = (r, h') \<and>
            length h \<le> length h' \<and> take (length h) h' = h \<and>
            (\<forall>items. r = Inr items \<longrightarrow>
               list_all2 (\<lambda>item new_item. copy_except_document (length h) h item h' new_item)
                 queue_items items)) \<and>
         (\<exists>r h'. create_queue_in_data env queue_items h = (r, h') \<and>
            length h \<le> length h' \<and> take (length h) h' = h \<and>
            (\<forall>items. r = Inr items \<longrightarrow>
               list_all2 (\<lambda>item new_item. copy_except_document (length h) h item h' new_item)
                 queue_items items))"
proof
  from create_queue_out_data_loop_frame[OF assms order_refl, of env "[]"]
  show "\<exists>r h'. create_queue_out_data env queue_items h = (r, h') \<and>
            length h \<le> length h' \<and> take (length h) h' = h \<and>
            (\<forall>items. r = Inr items \<longrightarrow>
               list_all2 (\<lambda>item new_item. copy_except_document (length h) h item h' new_item)
                 queue_items items)"
    by (simp add: create_queue_out_data_def)
  from create_queue_in_data_loop_frame[OF assms order_refl, of env "[]"]
  show "\<exists>r h'. create_queue_in_data env queue_items h = (r, h') \<and>
            length h \<le> length h' \<and> take (length h) h' = h \<and>
            (\<forall>items. r = Inr items \<longrightarrow>
               list_all2 (\<lambda>item new_item. copy_except_document (length h) h item h' new_item)
                 queue_items items)"
    by (simp add: create_queue_in_data_def)
qed

lemma example_out:
  "create_queue_out_data example_env [HRef 0] example_store =
     (Inr [HRef 3],
       example_store @
       [HDict [(''asset'', HStr ''hero''), (''document'', HRef 4), (''nodes'', HRef 5)],
        HDict [(''_id'', HStr look_id), (''name'', HStr ''heroLook''),
               (''parent'', HStr hero_id)],
        HList [HStr ''|hero|body'', HStr ''|hero|head'']])"
  unfolding create_queue_out_data_def create_queue_out_data_loop.simps out_item_def
    example_store_deepcopy
  by (simp add: out_assign_def h_getitem_def h_setitem_def h_str_def example_store_def
      example_env_fields)

lemma example_in:
  "create_queue_in_data example_env [HRef 0] example_store =
     (Inr [HRef 3],
       example_store @
       [HDict [(''asset'', HStr ''hero''), (''document'', HRef 4), (''nodes'', HRef 5)],
        HDict [(''_id'', HObjectId look_id), (''name'', HStr ''heroLook''),
               (''parent'', HObjectId hero_id)],
        HList [HStr ''|hero|body'', HStr ''|hero|head'']])"
  unfolding create_queue_in_data_def create_queue_in_data_loop.simps in_item_def
    example_store_deepcopy
  by (simp add: in_assign_def h_getitem_def h_setitem_def h_ObjectId_def example_store_def
      example_env_fields)

theorem create_queue_data_copies_items_witness:
  "closed (length example_store) example_store \<and>
   val_refs (HRef 0 :: string hval) \<subseteq> {..<length example_store} \<and>
   (\<exists>h'. create_queue_out_data example_env [HRef 0] example_store = (Inr [HRef 3], h') \<and>
      take (length example_store) h' = example_store \<and>
      copy_except_document (length example_store) example_store (HRef 0) h' (HRef 3)) \<and>
   (\<exists>h'. create_queue_in_data example_env [HRef 0] example_store = (Inr [HRef 3], h') \<and>
      take (length example_store) h' = example_store \<and>
      copy_except_document (length example_store) example_store (HRef 0) h' (HRef 3))"
proof -
  have it: "\<forall>item \<in> set [HRef 0 :: string hval]. val_refs item \<subseteq> {..<length example_store}"
    by (simp add: example_store_def)
  from create_queue_data_copies_items[OF example_store_closed it, of example_env]
  show ?thesis
    unfolding example_out example_in
    using example_store_closed it by simp
qed


section \<open>The round trip through the queue file\<close>


subsection \<open>Reading a field of the document\<close>






subsection \<open>A round of either loop that returns\<close>










subsection \<open>Writing the queue file\<close>






subsection \<open>Reading the queue file\<close>





















end
